theory Spec2Isabelle
  imports Main "HOL-Library.Word" "HOL-Library.Monad_Syntax"
begin

unbundle bit_operations_syntax

section \<open>A conservative mark-and-sweep collector (gc.c, gc.h), x86-64 Linux build\<close>

text \<open>
  The development embeds the collector of \<^verbatim>\<open>gc.c\<close> as it is compiled for x86-64 Linux:
  pointers and \<^verbatim>\<open>size_t\<close> are 8 bytes wide, \<^verbatim>\<open>arch_regs\<close> holds sixteen registers,
  \<^verbatim>\<open>sizeof(gc_entry)\<close> is 64 and \<^verbatim>\<open>sizeof(gc_state)\<close> is 88.

  Addresses are natural numbers and \<open>0\<close> is \<^verbatim>\<open>NULL\<close>. The pointer arithmetic of
  \<^verbatim>\<open>gc_mark\<close> is taken modulo \<open>2^64\<close>, as the machine computes it. The registry records
  and the collector state are typed objects, reached through pointers; the bytes the
  scanner reads through \<^verbatim>\<open>*(void**)start\<close> and \<^verbatim>\<open>gc_memcmp\<close> are those of the objects
  where an object lies and those of raw memory elsewhere, and such a read stops the
  run when it touches an address that is not readable.

  A run has one of three outcomes. \<open>None\<close>: it does not return (a pointer-following
  loop runs forever on a cyclic registry, a scan wraps around the address space
  forever) or it follows a record pointer to an address holding no record.
  \<open>Some (Faults w)\<close>: it is stopped by a read of unreadable memory, the world at that
  moment being \<open>w\<close>. \<open>Some (Returns x)\<close>: it returns \<open>x\<close>. Functions that read records
  only through pointers cannot fault and return a plain \<open>option\<close>. The C call stack
  is not bounded: the recursion of \<^verbatim>\<open>gc_mark\<close> may be as deep as the chain of records it
  marks.
\<close>

type_synonym addr = nat
type_synonym byte = nat

subsection \<open>Data model (gc.h)\<close>

text \<open>\<^verbatim>\<open>struct _gc_entry\<close>. The \<^verbatim>\<open>_tag\<close> field is constant and is not stored.\<close>

record gc_entry =
  ptr :: addr
  size_e :: nat
  reachable :: bool
  reach_addr :: addr
  next_e :: addr
  prev_e :: addr

text \<open>\<^verbatim>\<open>struct _mem_region\<close>.\<close>

record memory_region =
  region_start :: addr
  region_end :: addr

text \<open>\<^verbatim>\<open>struct _gc_state\<close>; \<^verbatim>\<open>allocations\<close> and \<^verbatim>\<open>threshold\<close> are \<^verbatim>\<open>size_t\<close>,
  \<^verbatim>\<open>flags\<close> is \<^verbatim>\<open>uint8_t\<close>.\<close>

record gc_state =
  stack_start :: addr
  data :: memory_region
  bss :: memory_region
  head :: addr
  allocations :: "64 word"
  threshold :: "64 word"
  flags :: "8 word"

text \<open>\<^verbatim>\<open>arch_regs\<close> of the \<^verbatim>\<open>__x86_64__\<close> branch, in declaration order.\<close>

record arch_regs =
  rax :: addr
  rbx :: addr
  rcx :: addr
  rdx :: addr
  rsi :: addr
  rdi :: addr
  rbp :: addr
  rsp :: addr
  r8 :: addr
  r9 :: addr
  r10 :: addr
  r11 :: addr
  r12 :: addr
  r13 :: addr
  r14 :: addr
  r15 :: addr

definition GC_ALLOC_THRESHOLD :: "64 word" where "GC_ALLOC_THRESHOLD = 128"

definition GC_SCAN_STACK :: "8 word" where "GC_SCAN_STACK = 1"
definition GC_SCAN_HEAPS :: "8 word" where "GC_SCAN_HEAPS = 2"
definition GC_SCAN_DATA_SECTION :: "8 word" where "GC_SCAN_DATA_SECTION = 4"
definition GC_SCAN_BSS_SECTION :: "8 word" where "GC_SCAN_BSS_SECTION = 8"
definition GC_SCAN_REGISTERS :: "8 word" where "GC_SCAN_REGISTERS = 16"

text \<open>The two self-tags: fifteen characters and the terminating NUL, sixteen bytes.\<close>

definition GC_TAG_ENTRY :: "byte list" where
  "GC_TAG_ENTRY = map of_char ''___GC__ENTRY___'' @ [0]"

definition GC_TAG_STATE :: "byte list" where
  "GC_TAG_STATE = map of_char ''___GC__STATE___'' @ [0]"

definition sizeof_tag :: nat where "sizeof_tag = 16"
definition sizeof_ptr :: nat where "sizeof_ptr = 8"
definition sizeof_gc_entry :: nat where "sizeof_gc_entry = 64"
definition sizeof_gc_state :: nat where "sizeof_gc_state = 88"
definition sizeof_arch_regs :: nat where "sizeof_arch_regs = 128"

subsection \<open>The machine the collector runs on\<close>

text \<open>
  \<open>st\<close> is the collector state record the handle points to and \<open>self\<close> the address of
  that block (the handle itself); \<open>ents\<close> holds the live \<^verbatim>\<open>gc_entry\<close> records by their
  own address; \<open>blocks\<close> is the underlying allocator's table of live payload blocks
  (base address to size); \<open>mem\<close> is raw byte memory; \<open>mapped\<close> tells which addresses
  are readable; \<open>gp_registers\<close> is the register snapshot buffer, a global of \<^verbatim>\<open>gc.c\<close>, and
  \<open>regs_at\<close> its address. Three fields are instrumentation and influence nothing:
  \<open>reads\<close> logs every candidate word the mark engine reads, as (check_tags, start
  argument of the call, end argument of the call, position read), \<open>seen\<close> logs the
  words themselves in the same order, and \<open>cycles\<close> counts the collection cycles
  started.
\<close>

type_synonym read_event = "bool \<times> addr \<times> addr \<times> addr"

record world =
  st :: gc_state
  self :: addr
  ents :: "addr \<rightharpoonup> gc_entry"
  blocks :: "addr \<rightharpoonup> nat"
  mem :: "addr \<Rightarrow> byte"
  mapped :: "addr \<Rightarrow> bool"
  gp_registers :: arch_regs
  regs_at :: addr
  reads :: "read_event list"
  seen :: "addr list"
  cycles :: nat

text \<open>The outcome of a run that can be stopped by a read of unreadable memory.\<close>

datatype 'a run = Returns 'a | Faults world

text \<open>Sequencing: the second computation runs in the world the first one returned.\<close>

definition and_then :: "'a run option \<Rightarrow> ('a \<Rightarrow> 'b run option) \<Rightarrow> 'b run option" where
  "and_then r f =
     (case r of
        None \<Rightarrow> None
      | Some (Faults w) \<Rightarrow> Some (Faults w)
      | Some (Returns x) \<Rightarrow> f x)"

text \<open>What a run returned, when it returned.\<close>

definition returned :: "'a run option \<Rightarrow> 'a option" where
  "returned r = (case r of Some (Returns x) \<Rightarrow> Some x | _ \<Rightarrow> None)"

definition faulted :: "'a run option \<Rightarrow> bool" where
  "faulted r = (case r of Some (Faults w) \<Rightarrow> True | _ \<Rightarrow> False)"

text \<open>The world a finished run ends in, whether it returned or was stopped.\<close>

definition final :: "world run \<Rightarrow> world" where
  "final r = (case r of Returns w \<Rightarrow> w | Faults w \<Rightarrow> w)"

subsection \<open>Bytes and words\<close>

text \<open>Reading a pointer: eight bytes, little-endian.\<close>

fun load_le :: "(addr \<Rightarrow> byte) \<Rightarrow> addr \<Rightarrow> nat \<Rightarrow> nat" where
  "load_le m a 0 = 0"
| "load_le m a (Suc n) = m a mod 256 + 256 * load_le m (Suc a) n"

definition load64 :: "(addr \<Rightarrow> byte) \<Rightarrow> addr \<Rightarrow> addr" where
  "load64 m a = load_le m a 8"

text \<open>Writing a pointer, as the host program does when it stores one.\<close>

fun store_le :: "(addr \<Rightarrow> byte) \<Rightarrow> addr \<Rightarrow> nat \<Rightarrow> nat \<Rightarrow> (addr \<Rightarrow> byte)" where
  "store_le m a 0 v = m"
| "store_le m a (Suc n) v = store_le (m(a := v mod 256)) (Suc a) n (v div 256)"

definition store64 :: "(addr \<Rightarrow> byte) \<Rightarrow> addr \<Rightarrow> addr \<Rightarrow> (addr \<Rightarrow> byte)" where
  "store64 m a v = store_le m a 8 v"

text \<open>Writing a byte string, as \<^verbatim>\<open>strcpy\<close> does with a tag.\<close>

fun store_bytes :: "(addr \<Rightarrow> byte) \<Rightarrow> addr \<Rightarrow> byte list \<Rightarrow> (addr \<Rightarrow> byte)" where
  "store_bytes m a [] = m"
| "store_bytes m a (b # bs) = store_bytes (m(a := b)) (Suc a) bs"

text \<open>Pointer arithmetic on \<^verbatim>\<open>void *\<close>: byte counts, modulo \<open>2^64\<close>.\<close>

definition addr_space :: nat where
  "addr_space = 18446744073709551616"

definition ptr_add :: "addr \<Rightarrow> nat \<Rightarrow> addr" where
  "ptr_add a n = (a + n) mod addr_space"

definition ptr_sub :: "addr \<Rightarrow> nat \<Rightarrow> addr" where
  "ptr_sub a n = (a + (addr_space - n)) mod addr_space"

subsection \<open>The bytes of the collector's own objects\<close>

text \<open>
  Byte \<open>k\<close> of a little-endian field holding \<open>v\<close>, and byte \<open>k\<close> of the three kinds of
  object in the layout of the x86-64 ABI. \<^verbatim>\<open>gc_entry\<close>: \<^verbatim>\<open>_tag\<close> at 0, \<^verbatim>\<open>ptr\<close> at 16,
  \<^verbatim>\<open>size\<close> at 24, \<^verbatim>\<open>reachable\<close> at 32 (one byte, then seven bytes of padding),
  \<^verbatim>\<open>reach_addr\<close> at 40, \<^verbatim>\<open>next\<close> at 48, \<^verbatim>\<open>prev\<close> at 56. \<^verbatim>\<open>gc_state\<close>: \<^verbatim>\<open>_tag\<close> at 0,
  \<^verbatim>\<open>stack_start\<close> at 16, \<^verbatim>\<open>data\<close> at 24 and 32, \<^verbatim>\<open>bss\<close> at 40 and 48, \<^verbatim>\<open>head\<close> at 56,
  \<^verbatim>\<open>allocations\<close> at 64, \<^verbatim>\<open>threshold\<close> at 72, \<^verbatim>\<open>flags\<close> at 80 (one byte, then padding).
  Padding bytes are those of raw memory.
\<close>

definition field_byte :: "nat \<Rightarrow> nat \<Rightarrow> byte" where
  "field_byte v k = (v div 256 ^ k) mod 256"

definition entry_byte :: "(addr \<Rightarrow> byte) \<Rightarrow> addr \<Rightarrow> gc_entry \<Rightarrow> nat \<Rightarrow> byte" where
  "entry_byte m r e k =
     (if k < 16 then GC_TAG_ENTRY ! k
      else if k < 24 then field_byte (ptr e) (k - 16)
      else if k < 32 then field_byte (size_e e) (k - 24)
      else if k = 32 then (if reachable e then 1 else 0)
      else if k < 40 then m (r + k)
      else if k < 48 then field_byte (reach_addr e) (k - 40)
      else if k < 56 then field_byte (next_e e) (k - 48)
      else field_byte (prev_e e) (k - 56))"

definition state_byte :: "(addr \<Rightarrow> byte) \<Rightarrow> addr \<Rightarrow> gc_state \<Rightarrow> nat \<Rightarrow> byte" where
  "state_byte m r s k =
     (if k < 16 then GC_TAG_STATE ! k
      else if k < 24 then field_byte (stack_start s) (k - 16)
      else if k < 32 then field_byte (region_start (data s)) (k - 24)
      else if k < 40 then field_byte (region_end (data s)) (k - 32)
      else if k < 48 then field_byte (region_start (bss s)) (k - 40)
      else if k < 56 then field_byte (region_end (bss s)) (k - 48)
      else if k < 64 then field_byte (head s) (k - 56)
      else if k < 72 then field_byte (unat (allocations s)) (k - 64)
      else if k < 80 then field_byte (unat (threshold s)) (k - 72)
      else if k = 80 then unat (flags s)
      else m (r + k))"

text \<open>The sixteen words of the snapshot buffer, in declaration order.\<close>

definition regs_words :: "arch_regs \<Rightarrow> addr list" where
  "regs_words r = [rax r, rbx r, rcx r, rdx r, rsi r, rdi r, rbp r, rsp r,
                   r8 r, r9 r, r10 r, r11 r, r12 r, r13 r, r14 r, r15 r]"

definition regs_byte :: "arch_regs \<Rightarrow> nat \<Rightarrow> byte" where
  "regs_byte r k = field_byte (regs_words r ! (k div 8)) (k mod 8)"

text \<open>The record whose sixty-four bytes contain address \<open>a\<close>: the nearest record
  address at or below \<open>a\<close>, if it is less than 64 bytes away.\<close>

definition covering :: "(addr \<rightharpoonup> gc_entry) \<Rightarrow> addr \<Rightarrow> addr option" where
  "covering h a =
     map_option (\<lambda>k. a - k) (find (\<lambda>k. k \<le> a \<and> h (a - k) \<noteq> None) [0..<64])"

text \<open>Memory as a raw read sees it.\<close>

definition view :: "world \<Rightarrow> addr \<Rightarrow> byte" where
  "view w a =
     (case covering (ents w) a of
        Some r \<Rightarrow> (case ents w r of
                     Some e \<Rightarrow> entry_byte (mem w) r e (a - r)
                   | None \<Rightarrow> mem w a)
      | None \<Rightarrow>
          if self w \<le> a \<and> a < self w + sizeof_gc_state
          then state_byte (mem w) (self w) (st w) (a - self w)
          else if regs_at w \<le> a \<and> a < regs_at w + sizeof_arch_regs
          then regs_byte (gp_registers w) (a - regs_at w)
          else mem w a)"

text \<open>
  A read of \<open>n\<close> bytes at \<open>a\<close> succeeds when every byte is mapped and lies in user
  space, which on x86-64 Linux ends at \<open>2^47\<close>.
\<close>

definition user_top :: addr where
  "user_top = 140737488355328"

primrec readable :: "world \<Rightarrow> addr \<Rightarrow> nat \<Rightarrow> bool" where
  "readable w a 0 = True"
| "readable w a (Suc n) = (a < user_top \<and> mapped w a \<and> readable w (Suc a) n)"

definition read_byte :: "world \<Rightarrow> addr \<Rightarrow> byte option" where
  "read_byte w a = (if readable w a 1 then Some (view w a mod 256) else None)"

definition read_word :: "world \<Rightarrow> addr \<Rightarrow> addr option" where
  "read_word w a = (if readable w a 8 then Some (load64 (view w) a) else None)"

text \<open>The underlying allocator hands out readable memory.\<close>

definition grant :: "(addr \<Rightarrow> bool) \<Rightarrow> addr \<Rightarrow> nat \<Rightarrow> (addr \<Rightarrow> bool)" where
  "grant mp p n = (\<lambda>x. mp x \<or> (p \<le> x \<and> x < p + n))"

subsection \<open>gc_memcmp\<close>

text \<open>The loop \<^verbatim>\<open>for (j = 0; j < n; j++) if (a[j] != b[j]) return false;\<close> with the
  second operand one of the tag literals. \<open>None\<close>: the read of \<^verbatim>\<open>a[j]\<close> faults.\<close>

function gc_memcmp_from :: "world \<Rightarrow> addr \<Rightarrow> byte list \<Rightarrow> nat \<Rightarrow> nat \<Rightarrow> bool option" where
  "gc_memcmp_from w a b n j =
     (if j < n
      then (case read_byte w (a + j) of
              None \<Rightarrow> None
            | Some x \<Rightarrow> if x \<noteq> b ! j then Some False else gc_memcmp_from w a b n (Suc j))
      else Some True)"
  by pat_completeness auto
termination
  by (relation "measure (\<lambda>(w, a, b, n, j). n - j)") auto

definition gc_memcmp :: "world \<Rightarrow> addr \<Rightarrow> byte list \<Rightarrow> nat \<Rightarrow> bool option" where
  "gc_memcmp w a b n = gc_memcmp_from w a b n 0"

subsection \<open>gc_init\<close>

text \<open>
  The argument \<open>blk\<close> is what \<^verbatim>\<open>malloc(sizeof(gc_state))\<close> returned: \<open>None\<close> for
  \<^verbatim>\<open>NULL\<close>, otherwise the block with whatever contents it had. The assignments of
  the source follow field by field; a field the source does not assign keeps the
  block's contents. \<open>sb\<close>, \<open>dat\<close> and \<open>bs\<close> are the results of the platform adapters
  \<^verbatim>\<open>gc_stack_base\<close>, \<^verbatim>\<open>gc_data_section\<close> and \<^verbatim>\<open>gc_bss_section\<close>.
\<close>

definition gc_init ::
  "8 word \<Rightarrow> gc_state option \<Rightarrow> addr \<Rightarrow> memory_region \<Rightarrow> memory_region \<Rightarrow> gc_state option" where
  "gc_init fl blk sb dat bs =
     (case blk of
        None \<Rightarrow> None
      | Some state \<Rightarrow>
          Some (state\<lparr>stack_start := sb, data := dat, bss := bs, head := 0,
                      threshold := GC_ALLOC_THRESHOLD, flags := fl\<rparr>))"

text \<open>A world around a state at address \<open>h\<close>: raw memory \<open>m\<close> with the readable
  addresses \<open>mp\<close>, the snapshot buffer at \<open>g\<close>, no records, no blocks,
  \<^verbatim>\<open>gp_registers = {0}\<close>.\<close>

definition zero_regs :: arch_regs where
  "zero_regs = \<lparr>rax = 0, rbx = 0, rcx = 0, rdx = 0, rsi = 0, rdi = 0, rbp = 0, rsp = 0,
                r8 = 0, r9 = 0, r10 = 0, r11 = 0, r12 = 0, r13 = 0, r14 = 0, r15 = 0\<rparr>"

definition new_world :: "gc_state \<Rightarrow> addr \<Rightarrow> addr \<Rightarrow> (addr \<Rightarrow> byte) \<Rightarrow> (addr \<Rightarrow> bool) \<Rightarrow> world" where
  "new_world s h g m mp =
     \<lparr>st = s, self = h, ents = Map.empty, blocks = Map.empty, mem = m, mapped = mp,
      gp_registers = zero_regs, regs_at = g, reads = [], seen = [], cycles = 0\<rparr>"

subsection \<open>Unlinking a record (the block shared by gc_sweep and gc_free)\<close>

text \<open>
  \<^verbatim>\<open>if (entry->prev != NULL) entry->prev->next = entry->next; else state->head = entry->next;\<close>
  \<^verbatim>\<open>if (entry->next != NULL) entry->next->prev = entry->prev;\<close>
  \<^verbatim>\<open>free(entry->ptr); free(entry);\<close>
  Each field is read from the store at the point where the source reads it.
\<close>

definition unlink_free :: "world \<Rightarrow> addr \<Rightarrow> world option" where
  "unlink_free w entry =
     do {
       e \<leftarrow> ents w entry;
       w1 \<leftarrow> (if prev_e e \<noteq> 0
              then do {
                pe \<leftarrow> ents w (prev_e e);
                Some (w\<lparr>ents := (ents w)(prev_e e \<mapsto> pe\<lparr>next_e := next_e e\<rparr>)\<rparr>)
              }
              else Some (w\<lparr>st := (st w)\<lparr>head := next_e e\<rparr>\<rparr>));
       e1 \<leftarrow> ents w1 entry;
       w2 \<leftarrow> (if next_e e1 \<noteq> 0
              then do {
                ne \<leftarrow> ents w1 (next_e e1);
                Some (w1\<lparr>ents := (ents w1)(next_e e1 \<mapsto> ne\<lparr>prev_e := prev_e e1\<rparr>)\<rparr>)
              }
              else Some w1);
       e2 \<leftarrow> ents w2 entry;
       Some (w2\<lparr>blocks := (blocks w2)(ptr e2 := None), ents := (ents w2)(entry := None)\<rparr>)
     }"

subsection \<open>gc_free\<close>

partial_function (option) gc_free_loop :: "world \<Rightarrow> addr \<Rightarrow> addr \<Rightarrow> world option" where
  "gc_free_loop w p entry =
     (if entry = 0 then Some w
      else do {
        e \<leftarrow> ents w entry;
        let nxt = next_e e;
        if ptr e = p
        then do { w' \<leftarrow> unlink_free w entry; gc_free_loop w' p nxt }
        else gc_free_loop w p nxt
      })"

declare gc_free_loop.simps [code]

definition gc_free :: "world \<Rightarrow> addr \<Rightarrow> world option" where
  "gc_free w p = (if p = 0 then Some w else gc_free_loop w p (head (st w)))"

subsection \<open>gc_sweep\<close>

partial_function (option) gc_sweep_loop :: "world \<Rightarrow> addr \<Rightarrow> world option" where
  "gc_sweep_loop w entry =
     (if entry = 0 then Some w
      else do {
        e \<leftarrow> ents w entry;
        let nxt = next_e e;
        if reachable e = False
        then do { w' \<leftarrow> unlink_free w entry; gc_sweep_loop w' nxt }
        else gc_sweep_loop w nxt
      })"

declare gc_sweep_loop.simps [code]

definition gc_sweep :: "world \<Rightarrow> world option" where
  "gc_sweep w = gc_sweep_loop w (head (st w))"

subsection \<open>gc_mark\<close>

text \<open>
  The self-skip of the inner loop body:
  \<^verbatim>\<open>if (gc_memcmp(start,GC_TAG_STATE,sizeof(GC_TAG_STATE))) start += sizeof(gc_state) -1;\<close>
  \<^verbatim>\<open>else if (gc_memcmp(start,GC_TAG_ENTRY,sizeof(GC_TAG_ENTRY))) start += sizeof(gc_entry) -1;\<close>
  \<^verbatim>\<open>start\<close> is a \<^verbatim>\<open>void *\<close>, so the addition counts bytes. \<open>None\<close>: a comparison faults.
\<close>

definition self_skip :: "world \<Rightarrow> bool \<Rightarrow> addr \<Rightarrow> addr option" where
  "self_skip w check_tags start =
     (if check_tags
      then (case gc_memcmp w start GC_TAG_STATE sizeof_tag of
              None \<Rightarrow> None
            | Some True \<Rightarrow> Some (ptr_add start (sizeof_gc_state - 1))
            | Some False \<Rightarrow>
                (case gc_memcmp w start GC_TAG_ENTRY sizeof_tag of
                   None \<Rightarrow> None
                 | Some True \<Rightarrow> Some (ptr_add start (sizeof_gc_entry - 1))
                 | Some False \<Rightarrow> Some start))
      else Some start)"

text \<open>
  The two nested loops and the recursive call are one recursive function over the
  program points of \<^verbatim>\<open>gc_mark\<close>: \<open>Enter\<close> is the function entry (\<^verbatim>\<open>end -= sizeof(void*)\<close>),
  \<open>Outer\<close> the test of \<^verbatim>\<open>while (start <= end)\<close>, \<open>Inner e\<close> the test of
  \<^verbatim>\<open>while (e != NULL)\<close> with the current record pointer. In the body of the inner loop
  the source first compares the tags, then reads \<^verbatim>\<open>e->ptr\<close>, then the word at the
  cursor, then \<^verbatim>\<open>e->reachable\<close>. \<open>s0\<close> and \<open>e0\<close> are the call's own arguments, carried
  along for the read log only.
\<close>

datatype mark_pc = Enter | Outer | Inner addr

partial_function (option) gc_mark_at ::
  "mark_pc \<Rightarrow> world \<Rightarrow> addr \<Rightarrow> addr \<Rightarrow> addr \<Rightarrow> addr \<Rightarrow> bool \<Rightarrow> world run option" where
  "gc_mark_at pc w s0 e0 start end check_tags =
     (case pc of
        Enter \<Rightarrow> gc_mark_at Outer w s0 e0 start (ptr_sub end sizeof_ptr) check_tags
      | Outer \<Rightarrow>
          if start \<le> end then gc_mark_at (Inner (head (st w))) w s0 e0 start end check_tags
          else Some (Returns w)
      | Inner e \<Rightarrow>
          if e = 0 then gc_mark_at Outer w s0 e0 (ptr_add start sizeof_ptr) end check_tags
          else
            (case self_skip w check_tags start of
               None \<Rightarrow> Some (Faults w)
             | Some start1 \<Rightarrow>
                 (case ents w e of
                    None \<Rightarrow> None
                  | Some en \<Rightarrow>
                      (case read_word w start1 of
                         None \<Rightarrow> Some (Faults w)
                       | Some v \<Rightarrow>
                           let w1 = w\<lparr>reads := reads w @ [(check_tags, s0, e0, start1)],
                                      seen := seen w @ [v]\<rparr>
                           in if ptr en = v \<and> reachable en = False
                              then
                                let w2 = w1\<lparr>ents := (ents w1)(e \<mapsto> en\<lparr>reachable := True,
                                                                        reach_addr := start1\<rparr>)\<rparr>
                                in do {
                                  r \<leftarrow> gc_mark_at Enter w2 (ptr en) (ptr_add (ptr en) (size_e en))
                                         (ptr en) (ptr_add (ptr en) (size_e en)) True;
                                  case r of
                                    Faults w4 \<Rightarrow> Some (Faults w4)
                                  | Returns w3 \<Rightarrow>
                                      (case ents w3 e of
                                         None \<Rightarrow> None
                                       | Some en3 \<Rightarrow>
                                           gc_mark_at (Inner (next_e en3)) w3 s0 e0 start1 end
                                             check_tags)
                                }
                              else gc_mark_at (Inner (next_e en)) w1 s0 e0 start1 end
                                     check_tags))))"

declare gc_mark_at.simps [code]

definition gc_mark :: "world \<Rightarrow> addr \<Rightarrow> addr \<Rightarrow> bool \<Rightarrow> world run option" where
  "gc_mark w start end check_tags = gc_mark_at Enter w start end start end check_tags"

subsection \<open>The collection cycle\<close>

text \<open>\<^verbatim>\<open>for (t = 0; t < sizeof(arch_regs); t += sizeof(UINTPTR_MAX))\<close>
  \<^verbatim>\<open>if (*(void**)(regs+t) == entry->ptr) entry->reachable = true;\<close>\<close>

fun scan_registers :: "addr list \<Rightarrow> gc_entry \<Rightarrow> gc_entry" where
  "scan_registers [] e = e"
| "scan_registers (r # rs) e =
     scan_registers rs (if r = ptr e then e\<lparr>reachable := True\<rparr> else e)"

text \<open>The first loop of \<^verbatim>\<open>_gc_collect\<close>: reset every mark, then pre-mark from the
  register snapshot when the registers flag is set.\<close>

partial_function (option) gc_reset_loop :: "world \<Rightarrow> addr \<Rightarrow> world option" where
  "gc_reset_loop w entry =
     (if entry = 0 then Some w
      else do {
        e \<leftarrow> ents w entry;
        let e1 = e\<lparr>reachable := False, reach_addr := 0\<rparr>;
        let e2 = (if (flags (st w) AND GC_SCAN_REGISTERS) \<noteq> 0
                  then scan_registers (regs_words (gp_registers w)) e1 else e1);
        gc_reset_loop (w\<lparr>ents := (ents w)(entry \<mapsto> e2)\<rparr>) (next_e e2)
      })"

declare gc_reset_loop.simps [code]

text \<open>\<^verbatim>\<open>gc_current_stack_top\<close> outside aarch64: the saved stack pointer.\<close>

definition gc_current_stack_top :: "world \<Rightarrow> addr" where
  "gc_current_stack_top w = rsp (gp_registers w)"

text \<open>\<^verbatim>\<open>for (t = 0; t < n_heaps; t++) gc_mark(state, heaps[t].start, heaps[t].end, true);\<close>\<close>

fun gc_mark_heaps :: "world \<Rightarrow> memory_region list \<Rightarrow> world run option" where
  "gc_mark_heaps w [] = Some (Returns w)"
| "gc_mark_heaps w (h # hs) =
     and_then (gc_mark w (region_start h) (region_end h) True) (\<lambda>w'. gc_mark_heaps w' hs)"

text \<open>\<^verbatim>\<open>_gc_collect\<close>; \<open>heaps\<close> is what the platform adapter \<^verbatim>\<open>gc_heap_regions\<close> returns
  when it is called.\<close>

definition u_gc_collect :: "world \<Rightarrow> memory_region list \<Rightarrow> world run option" where
  "u_gc_collect w0 heaps =
     do {
       let w = w0\<lparr>cycles := Suc (cycles w0)\<rparr>;
       w1 \<leftarrow> gc_reset_loop w (head (st w));
       let stack_top = gc_current_stack_top w1;
       and_then (if (flags (st w1) AND GC_SCAN_STACK) \<noteq> 0
                 then gc_mark w1 stack_top (stack_start (st w1)) False
                 else Some (Returns w1))
         (\<lambda>w2.
       and_then (if (flags (st w2) AND GC_SCAN_DATA_SECTION) \<noteq> 0
                 then gc_mark w2 (region_start (data (st w2))) (region_end (data (st w2))) False
                 else Some (Returns w2))
         (\<lambda>w3.
       and_then (if (flags (st w3) AND GC_SCAN_BSS_SECTION) \<noteq> 0
                 then gc_mark w3 (region_start (bss (st w3))) (region_end (bss (st w3))) False
                 else Some (Returns w3))
         (\<lambda>w4.
       and_then (if (flags (st w4) AND GC_SCAN_HEAPS) \<noteq> 0
                 then gc_mark_heaps w4 heaps
                 else Some (Returns w4))
         (\<lambda>w5. map_option Returns (gc_sweep w5)))))
     }"

text \<open>The macro \<^verbatim>\<open>gc_collect(state)\<close>: \<^verbatim>\<open>SAVE_GP_REGISTERS(); _gc_collect(state)\<close>.
  \<open>cpu\<close> is the register file at the call site.\<close>

definition gc_collect :: "world \<Rightarrow> arch_regs \<Rightarrow> memory_region list \<Rightarrow> world run option" where
  "gc_collect w cpu heaps = u_gc_collect (w\<lparr>gp_registers := cpu\<rparr>) heaps"

subsection \<open>gc_alloc\<close>

text \<open>\<^verbatim>\<open>memset(ptr, 0, sz)\<close>.\<close>

definition memset0 :: "(addr \<Rightarrow> byte) \<Rightarrow> addr \<Rightarrow> nat \<Rightarrow> (addr \<Rightarrow> byte)" where
  "memset0 m p n = (\<lambda>x. if p \<le> x \<and> x < p + n then 0 else m x)"

text \<open>
  \<open>p\<close> is the result of \<^verbatim>\<open>malloc(sz)\<close> and \<open>q\<close> the result of
  \<^verbatim>\<open>malloc(sizeof(gc_entry))\<close> (\<open>0\<close> for \<^verbatim>\<open>NULL\<close>), \<open>raw\<close> the contents of that second
  block as the allocator hands it out; \<open>cpu\<close> and \<open>heaps\<close> are what a collection
  started here would see. The result is the returned pointer and the new world.
\<close>

definition gc_alloc ::
  "world \<Rightarrow> nat \<Rightarrow> bool \<Rightarrow> addr \<Rightarrow> addr \<Rightarrow> gc_entry \<Rightarrow> arch_regs \<Rightarrow> memory_region list
     \<Rightarrow> (addr \<times> world) run option" where
  "gc_alloc w sz init p q raw cpu heaps =
     (if p \<noteq> 0
      then
        let w1 = w\<lparr>blocks := (blocks w)(p \<mapsto> sz), mapped := grant (mapped w) p sz\<rparr>;
            w2 = (if init then w1\<lparr>mem := memset0 (mem w1) p sz\<rparr> else w1)
        in if q \<noteq> 0
           then
             let new_entry = raw\<lparr>ptr := p, prev_e := 0, next_e := head (st w2),
                                 size_e := sz, reachable := False\<rparr>;
                 w3 = w2\<lparr>ents := (ents w2)(q \<mapsto> new_entry),
                         mapped := grant (mapped w2) q sizeof_gc_entry\<rparr>
             in do {
               w4 \<leftarrow> (if head (st w3) \<noteq> 0
                      then do {
                        h \<leftarrow> ents w3 (head (st w3));
                        Some (w3\<lparr>ents := (ents w3)(head (st w3) \<mapsto> h\<lparr>prev_e := q\<rparr>)\<rparr>)
                      }
                      else Some w3);
               let w5 = w4\<lparr>st := (st w4)\<lparr>head := q\<rparr>\<rparr>;
               let w6 = w5\<lparr>st := (st w5)\<lparr>allocations := allocations (st w5) + 1\<rparr>\<rparr>;
               and_then (if threshold (st w6) > 0 \<and> allocations (st w6) mod threshold (st w6) = 0
                         then gc_collect w6 cpu heaps else Some (Returns w6))
                 (\<lambda>w7. Some (Returns (p, w7)))
             }
           else Some (Returns (0, w2\<lparr>blocks := (blocks w2)(p := None)\<rparr>))
      else Some (Returns (p, w)))"

subsection \<open>gc_realloc\<close>

text \<open>
  The underlying \<^verbatim>\<open>realloc(old, sz)\<close> with result \<open>r\<close>: on failure (\<open>r = 0\<close>) the old
  block stays as it is; on success the block lives at \<open>r\<close> with size \<open>sz\<close> and holds
  the old contents up to the smaller of the two sizes.
\<close>

definition realloc_block :: "world \<Rightarrow> addr \<Rightarrow> nat \<Rightarrow> addr \<Rightarrow> world" where
  "realloc_block w old sz r =
     (if r = 0 then w
      else
        let n = min sz (case blocks w old of None \<Rightarrow> 0 | Some k \<Rightarrow> k)
        in w\<lparr>blocks := ((blocks w)(old := None))(r \<mapsto> sz),
             mem := (\<lambda>x. if r \<le> x \<and> x < r + n then mem w (old + (x - r)) else mem w x),
             mapped := grant (mapped w) r sz\<rparr>)"

partial_function (option) gc_realloc_loop ::
  "world \<Rightarrow> addr \<Rightarrow> nat \<Rightarrow> addr \<Rightarrow> addr \<Rightarrow> (addr \<times> world) option" where
  "gc_realloc_loop w p sz r entry =
     (if entry = 0 then Some (0, w)
      else do {
        e \<leftarrow> ents w entry;
        if ptr e = p
        then
          let w1 = realloc_block w (ptr e) sz r;
              w2 = w1\<lparr>ents := (ents w1)(entry \<mapsto> e\<lparr>ptr := r\<rparr>)\<rparr>
          in Some (r, w2)
        else gc_realloc_loop w p sz r (next_e e)
      })"

declare gc_realloc_loop.simps [code]

text \<open>\<open>r\<close> is the result of the underlying \<^verbatim>\<open>realloc\<close>; the remaining arguments are
  those of \<open>gc_alloc\<close>, used when \<^verbatim>\<open>ptr == NULL\<close>.\<close>

definition gc_realloc ::
  "world \<Rightarrow> addr \<Rightarrow> nat \<Rightarrow> addr \<Rightarrow> addr \<Rightarrow> addr \<Rightarrow> gc_entry \<Rightarrow> arch_regs \<Rightarrow> memory_region list
     \<Rightarrow> (addr \<times> world) run option" where
  "gc_realloc w p sz r mp mq raw cpu heaps =
     (if p = 0 then gc_alloc w sz False mp mq raw cpu heaps
      else if sz = 0 then map_option Returns (do { w' \<leftarrow> gc_free w p; Some (0, w') })
      else map_option Returns (gc_realloc_loop w p sz r (head (st w))))"


section \<open>Concrete inputs\<close>

text \<open>A state as \<^verbatim>\<open>gc_init\<close> leaves it, with empty stack, data and bss ranges, automatic
  collection off, and the given flags.\<close>

definition ex_state :: "8 word \<Rightarrow> gc_state" where
  "ex_state fl =
     \<lparr>stack_start = 28672,
      data = \<lparr>region_start = 20480, region_end = 20480\<rparr>,
      bss = \<lparr>region_start = 24576, region_end = 24576\<rparr>,
      head = 0, allocations = 0, threshold = 0, flags = fl\<rparr>"

definition raw0 :: gc_entry where
  "raw0 = \<lparr>ptr = 0, size_e = 0, reachable = False, reach_addr = 0, next_e = 0, prev_e = 0\<rparr>"

definition zero_mem :: "addr \<Rightarrow> byte" where
  "zero_mem = (\<lambda>_. 0)"

text \<open>In every example the readable addresses are those from 64 up to 32768, the
  state block is at 1024 and the snapshot buffer at 2048.\<close>

definition low_memory :: "addr \<Rightarrow> bool" where
  "low_memory = (\<lambda>a. 64 \<le> a \<and> a < 32768)"

text \<open>Observations on the result of a run: \<open>None\<close> when the run has no result,
  otherwise \<open>Some\<close> of the observed value (for a record or a block, \<open>Some None\<close> when
  it is no longer there).\<close>

definition record_at :: "addr \<Rightarrow> world option \<Rightarrow> gc_entry option option" where
  "record_at a r = map_option (\<lambda>w. ents w a) r"

definition block_at :: "addr \<Rightarrow> world option \<Rightarrow> nat option option" where
  "block_at a r = map_option (\<lambda>w. blocks w a) r"

definition reads_of :: "world option \<Rightarrow> read_event list option" where
  "reads_of r = map_option reads r"

definition seen_of :: "world option \<Rightarrow> addr list option" where
  "seen_of r = map_option seen r"

definition cycles_of :: "world option \<Rightarrow> nat option" where
  "cycles_of r = map_option cycles r"

definition head_of :: "world option \<Rightarrow> addr option" where
  "head_of r = map_option (\<lambda>w. head (st w)) r"

definition world_of :: "(addr \<times> world) option \<Rightarrow> world option" where
  "world_of r = map_option snd r"

definition ptr_of :: "(addr \<times> world) option \<Rightarrow> addr option" where
  "ptr_of r = map_option fst r"

text \<open>
  Two tracked allocations: A (record at 100, payload at 8192) and B (record at 200,
  payload at 12288, allocated last, so it is the head). The first word of A's payload
  holds B's base; the one-word stack \<open>[28664, 28672)\<close> holds A's base.
\<close>

definition two_records :: "8 word \<Rightarrow> world" where
  "two_records fl =
     \<lparr>st = (ex_state fl)\<lparr>head := 200\<rparr>, self = 1024,
      ents = [100 \<mapsto> \<lparr>ptr = 8192, size_e = 8, reachable = False, reach_addr = 0,
                       next_e = 0, prev_e = 200\<rparr>,
              200 \<mapsto> \<lparr>ptr = 12288, size_e = 8, reachable = False, reach_addr = 0,
                       next_e = 100, prev_e = 0\<rparr>],
      blocks = [8192 \<mapsto> 8, 12288 \<mapsto> 8],
      mem = store64 (store64 zero_mem 8192 12288) 28664 8192, mapped = low_memory,
      gp_registers = zero_regs, regs_at = 2048, reads = [], seen = [], cycles = 0\<rparr>"

text \<open>The register file at the call site of \<^verbatim>\<open>gc_collect\<close>: \<^verbatim>\<open>rax\<close> holds A's base,
  the stack pointer is 28664.\<close>

definition cpu_holding_A :: arch_regs where
  "cpu_holding_A = zero_regs\<lparr>rax := 8192, rsp := 28664\<rparr>"

text \<open>One tracked allocation of four bytes at 8192, its record at 100.\<close>

definition one_record :: world where
  "one_record =
     \<lparr>st = (ex_state 1)\<lparr>head := 100\<rparr>, self = 1024,
      ents = [100 \<mapsto> \<lparr>ptr = 8192, size_e = 4, reachable = False, reach_addr = 0,
                       next_e = 0, prev_e = 0\<rparr>],
      blocks = [8192 \<mapsto> 4],
      mem = zero_mem, mapped = low_memory,
      gp_registers = zero_regs, regs_at = 2048, reads = [], seen = [], cycles = 0\<rparr>"

text \<open>A block as \<^verbatim>\<open>malloc\<close> may return it for the collector state: every field holds
  what the previous owner left there.\<close>

definition stale_block :: gc_state where
  "stale_block =
     \<lparr>stack_start = 7, data = \<lparr>region_start = 7, region_end = 7\<rparr>,
      bss = \<lparr>region_start = 7, region_end = 7\<rparr>,
      head = 7, allocations = 127, threshold = 7, flags = 7\<rparr>"

text \<open>
  A heap range \<open>[4096, 4176)\<close>: a registry record's sixteen tag bytes at 4096 (the record
  occupies 4096 to 4159), and in the word at 4160, the first word after the record, the
  base 8192 of a tracked allocation whose own record is at 100.
\<close>

definition tagged_heap :: world where
  "tagged_heap =
     \<lparr>st = (ex_state 2)\<lparr>head := 100\<rparr>, self = 1024,
      ents = [100 \<mapsto> \<lparr>ptr = 8192, size_e = 8, reachable = False, reach_addr = 0,
                       next_e = 0, prev_e = 0\<rparr>],
      blocks = [8192 \<mapsto> 8],
      mem = store64 (store_bytes zero_mem 4096 GC_TAG_ENTRY) 4160 8192, mapped = low_memory,
      gp_registers = zero_regs, regs_at = 2048, reads = [], seen = [], cycles = 0\<rparr>"

text \<open>
  A heap whose last sixty-four readable bytes, \<open>[32704, 32768)\<close>, are the registry
  record of the one tracked allocation (payload at 8192).
\<close>

definition edge_heap :: world where
  "edge_heap =
     \<lparr>st = (ex_state 2)\<lparr>head := 32704\<rparr>, self = 1024,
      ents = [32704 \<mapsto> \<lparr>ptr = 8192, size_e = 8, reachable = False, reach_addr = 0,
                         next_e = 0, prev_e = 0\<rparr>],
      blocks = [8192 \<mapsto> 8],
      mem = zero_mem, mapped = low_memory,
      gp_registers = zero_regs, regs_at = 2048, reads = [], seen = [], cycles = 0\<rparr>"

text \<open>
  A reference cycle with no root: A (record at 100, payload at 8192) and B (record at
  200, payload at 12288) each hold the other's base in the first payload word; the
  one-word stack \<open>[28664, 28672)\<close> holds zero. \<open>cpu_idle\<close> is a register file that holds
  no base. In \<open>three_records\<close> the same pair is referenced from the payload of a third
  allocation C (record at 300, payload at 16384), whose base is on the stack.
  \<open>half_marked\<close> is a registry as the mark phase may leave it: A marked, B not.
\<close>

definition cycle_world :: world where
  "cycle_world =
     \<lparr>st = (ex_state (GC_SCAN_STACK OR GC_SCAN_REGISTERS))\<lparr>head := 200\<rparr>, self = 1024,
      ents = [100 \<mapsto> \<lparr>ptr = 8192, size_e = 8, reachable = False, reach_addr = 0,
                       next_e = 0, prev_e = 200\<rparr>,
              200 \<mapsto> \<lparr>ptr = 12288, size_e = 8, reachable = False, reach_addr = 0,
                       next_e = 100, prev_e = 0\<rparr>],
      blocks = [8192 \<mapsto> 8, 12288 \<mapsto> 8],
      mem = store64 (store64 zero_mem 8192 12288) 12288 8192, mapped = low_memory,
      gp_registers = zero_regs, regs_at = 2048, reads = [], seen = [], cycles = 0\<rparr>"

definition cpu_idle :: arch_regs where
  "cpu_idle = zero_regs\<lparr>rsp := 28664\<rparr>"

definition three_records :: world where
  "three_records =
     \<lparr>st = (ex_state GC_SCAN_STACK)\<lparr>head := 300\<rparr>, self = 1024,
      ents = [100 \<mapsto> \<lparr>ptr = 8192, size_e = 8, reachable = False, reach_addr = 0,
                       next_e = 0, prev_e = 200\<rparr>,
              200 \<mapsto> \<lparr>ptr = 12288, size_e = 8, reachable = False, reach_addr = 0,
                       next_e = 100, prev_e = 300\<rparr>,
              300 \<mapsto> \<lparr>ptr = 16384, size_e = 8, reachable = False, reach_addr = 0,
                       next_e = 200, prev_e = 0\<rparr>],
      blocks = [8192 \<mapsto> 8, 12288 \<mapsto> 8, 16384 \<mapsto> 8],
      mem = store64 (store64 (store64 (store64 zero_mem 8192 12288) 12288 8192) 16384 8192) 28664 16384,
      mapped = low_memory,
      gp_registers = zero_regs, regs_at = 2048, reads = [], seen = [], cycles = 0\<rparr>"

definition half_marked :: world where
  "half_marked =
     \<lparr>st = (ex_state GC_SCAN_STACK)\<lparr>head := 200\<rparr>, self = 1024,
      ents = [100 \<mapsto> \<lparr>ptr = 8192, size_e = 8, reachable = True, reach_addr = 28664,
                       next_e = 0, prev_e = 200\<rparr>,
              200 \<mapsto> \<lparr>ptr = 12288, size_e = 8, reachable = False, reach_addr = 0,
                       next_e = 100, prev_e = 0\<rparr>],
      blocks = [8192 \<mapsto> 8, 12288 \<mapsto> 8],
      mem = store64 zero_mem 28664 8192, mapped = low_memory,
      gp_registers = zero_regs, regs_at = 2048, reads = [], seen = [], cycles = 1\<rparr>"

section \<open>The registry as a doubly-linked list\<close>

text \<open>
  \<open>dll h p a xs\<close>: starting at address \<open>a\<close>, with \<open>p\<close> the address of the record before
  it (\<open>0\<close> at the head), the \<^verbatim>\<open>next\<close> pointers lead through exactly the records at
  \<open>xs\<close> and end in \<^verbatim>\<open>NULL\<close>, and every \<^verbatim>\<open>prev\<close> pointer names the record before.
  \<open>registry w as\<close>: the registry of \<open>w\<close> is well formed and its records, from the
  head, are those at \<open>as\<close>.
\<close>

fun dll :: "(addr \<rightharpoonup> gc_entry) \<Rightarrow> addr \<Rightarrow> addr \<Rightarrow> addr list \<Rightarrow> bool" where
  "dll h p a [] = (a = 0)"
| "dll h p a (x # xs) =
     (a = x \<and> x \<noteq> 0 \<and>
      (case h x of None \<Rightarrow> False | Some e \<Rightarrow> prev_e e = p \<and> dll h x (next_e e) xs))"

definition registry :: "world \<Rightarrow> addr list \<Rightarrow> bool" where
  "registry w as = (dll (ents w) 0 (head (st w)) as \<and> distinct as)"

text \<open>The first address of a list, \<^verbatim>\<open>NULL\<close> for the empty list.\<close>

definition hd0 :: "addr list \<Rightarrow> addr" where
  "hd0 xs = (case xs of [] \<Rightarrow> 0 | x # _ \<Rightarrow> x)"

text \<open>The payload fields and the link fields of a record.\<close>

definition entry_data :: "gc_entry \<Rightarrow> addr \<times> nat \<times> bool \<times> addr" where
  "entry_data e = (ptr e, size_e e, reachable e, reach_addr e)"

definition entry_links :: "gc_entry \<Rightarrow> addr \<times> addr" where
  "entry_links e = (next_e e, prev_e e)"

text \<open>The record at \<open>a\<close> exists and satisfies \<open>P\<close>; has base \<open>p\<close>; is marked.\<close>

definition selected :: "(gc_entry \<Rightarrow> bool) \<Rightarrow> world \<Rightarrow> addr \<Rightarrow> bool" where
  "selected P w a = (case ents w a of None \<Rightarrow> False | Some e \<Rightarrow> P e)"

definition base_is :: "world \<Rightarrow> addr \<Rightarrow> addr \<Rightarrow> bool" where
  "base_is w p a = selected (\<lambda>e. ptr e = p) w a"

definition marked :: "world \<Rightarrow> addr \<Rightarrow> bool" where
  "marked w a = selected reachable w a"

text \<open>Two worlds agree on everything but the records, the blocks and the head.\<close>

definition same_outside_registry :: "world \<Rightarrow> world \<Rightarrow> bool" where
  "same_outside_registry w w' =
     (mem w' = mem w \<and> mapped w' = mapped w \<and> self w' = self w \<and>
      gp_registers w' = gp_registers w \<and> regs_at w' = regs_at w \<and> reads w' = reads w \<and>
      seen w' = seen w \<and> cycles w' = cycles w \<and> (st w')\<lparr>head := 0\<rparr> = (st w)\<lparr>head := 0\<rparr>)"


section \<open>Specification vocabulary for the mark phase\<close>

text \<open>The words the mark engine has read between two worlds.\<close>

definition new_seen :: "world \<Rightarrow> world \<Rightarrow> addr list" where
  "new_seen w w' = drop (length (seen w)) (seen w')"

text \<open>
  \<open>entry_rel vs r r'\<close> relates a record before and after marking: it is still there,
  base, size and links are unchanged, a record that was marked is untouched, and a
  record that became marked has its base among the words \<open>vs\<close> that were read.
  \<open>mark_rel w w'\<close>: \<open>w'\<close> differs from \<open>w\<close> only by such changes to records and by what
  was appended to the two logs. \<open>mark_run w r\<close>: the run \<open>r\<close>, started in \<open>w\<close>, comes
  to an end, returning or stopped by a fault, in a world that differs from \<open>w\<close> in
  this way only.
\<close>

definition entry_rel :: "addr list \<Rightarrow> gc_entry option \<Rightarrow> gc_entry option \<Rightarrow> bool" where
  "entry_rel vs r r' =
     (case r of
        None \<Rightarrow> r' = None
      | Some e \<Rightarrow>
          (\<exists>e'. r' = Some e' \<and> ptr e' = ptr e \<and> size_e e' = size_e e \<and>
                next_e e' = next_e e \<and> prev_e e' = prev_e e \<and>
                (reachable e \<longrightarrow> e' = e) \<and>
                (reachable e' \<and> \<not> reachable e \<longrightarrow> ptr e \<in> set vs)))"

definition mark_rel :: "world \<Rightarrow> world \<Rightarrow> bool" where
  "mark_rel w w' =
     (st w' = st w \<and> self w' = self w \<and> mem w' = mem w \<and> mapped w' = mapped w \<and>
      blocks w' = blocks w \<and> gp_registers w' = gp_registers w \<and> regs_at w' = regs_at w \<and>
      cycles w' = cycles w \<and> (\<exists>evs. reads w' = reads w @ evs) \<and>
      (\<exists>vs. seen w' = seen w @ vs \<and> (\<forall>a. entry_rel vs (ents w a) (ents w' a))))"

definition mark_run :: "world \<Rightarrow> world run option \<Rightarrow> bool" where
  "mark_run w r = (\<exists>out. r = Some out \<and> mark_rel w (final out))"

text \<open>
  The number of unmarked records; the invariant at each program point of \<open>gc_mark_at\<close>
  on a non-empty registry (the end of the range is a machine address, and from the
  second record of an inner loop on, the word at the cursor has been read, so the
  cursor is in user space); and the lexicographic measure (unmarked records, distance
  of the cursor from the top of the address space, remaining records of the inner
  loop) under which every step of \<open>gc_mark_at\<close> decreases.
\<close>

definition unmarked :: "world \<Rightarrow> addr list \<Rightarrow> nat" where
  "unmarked w as = length (filter (\<lambda>a. \<not> marked w a) as)"

definition mark_pre :: "addr list \<Rightarrow> mark_pc \<Rightarrow> addr \<Rightarrow> addr \<Rightarrow> bool" where
  "mark_pre as pc start end =
     (case pc of
        Enter \<Rightarrow> True
      | Outer \<Rightarrow> end < addr_space
      | Inner x \<Rightarrow> end < addr_space \<and> (x = 0 \<or> x \<in> set as) \<and>
                   (start + 8 \<le> user_top \<or> x = hd0 as \<and> start \<le> end))"

definition mark_size :: "addr list \<Rightarrow> mark_pc \<times> world \<times> addr \<Rightarrow> nat \<times> nat \<times> nat" where
  "mark_size as cfg =
     (case cfg of (pc, w, start) \<Rightarrow>
        (unmarked w as,
         (case pc of Enter \<Rightarrow> addr_space + 2 - start | Outer \<Rightarrow> addr_space + 2 - start
                   | Inner x \<Rightarrow> addr_space + 1 - start),
         (case pc of Enter \<Rightarrow> 1 | Outer \<Rightarrow> 0
                   | Inner x \<Rightarrow> Suc (length (dropWhile (\<lambda>a. a \<noteq> x) as)))))"

definition mark_order :: "addr list \<Rightarrow> ((mark_pc \<times> world \<times> addr) \<times> (mark_pc \<times> world \<times> addr)) set" where
  "mark_order as = inv_image (less_than <*lex*> less_than <*lex*> less_than) (mark_size as)"

section \<open>Evaluation rules\<close>

text \<open>Unfolding rules for running the model on concrete inputs with the simplifier. The
  weak congruences keep the simplifier out of a continuation until the first
  computation has a value.\<close>

lemma bind_weak_cong: "m = m' \<Longrightarrow> Option.bind m f = Option.bind m' f"
  by simp

lemma and_then_weak_cong: "r = r' \<Longrightarrow> and_then r f = and_then r' f"
  by simp

lemma and_then_simps:
  "and_then None f = None"
  "and_then (Some (Faults w)) f = Some (Faults w)"
  "and_then (Some (Returns x)) f = f x"
  by (simp_all add: and_then_def)

lemma returned_simps:
  "returned None = None"
  "returned (Some (Faults w)) = None"
  "returned (Some (Returns x)) = Some x"
  by (simp_all add: returned_def)

lemma faulted_simps:
  "faulted None = False"
  "faulted (Some (Faults w)) = True"
  "faulted (Some (Returns x)) = False"
  by (simp_all add: faulted_def)

lemma eight_Suc: "(8::nat) = Suc (Suc (Suc (Suc (Suc (Suc (Suc (Suc 0)))))))"
  by simp

lemma load64_unfold:
  "load64 m a =
     m a mod 256 + 256 * (m (Suc a) mod 256 + 256 * (m (Suc (Suc a)) mod 256 +
     256 * (m (Suc (Suc (Suc a))) mod 256 + 256 * (m (Suc (Suc (Suc (Suc a)))) mod 256 +
     256 * (m (Suc (Suc (Suc (Suc (Suc a))))) mod 256 +
     256 * (m (Suc (Suc (Suc (Suc (Suc (Suc a)))))) mod 256 +
     256 * (m (Suc (Suc (Suc (Suc (Suc (Suc (Suc a))))))) mod 256)))))))"
  unfolding load64_def eight_Suc load_le.simps by simp

lemma store64_unfold:
  "store64 m a v = store_le m a (Suc (Suc (Suc (Suc (Suc (Suc (Suc (Suc 0)))))))) v"
  unfolding store64_def eight_Suc ..

lemma readable_1: "readable w a 1 = (a < user_top \<and> mapped w a)"
  by simp

lemma readable_8:
  "readable w a 8 =
     (Suc (Suc (Suc (Suc (Suc (Suc (Suc a)))))) < user_top \<and> mapped w a \<and>
      mapped w (Suc a) \<and> mapped w (Suc (Suc a)) \<and> mapped w (Suc (Suc (Suc a))) \<and>
      mapped w (Suc (Suc (Suc (Suc a)))) \<and> mapped w (Suc (Suc (Suc (Suc (Suc a))))) \<and>
      mapped w (Suc (Suc (Suc (Suc (Suc (Suc a)))))) \<and>
      mapped w (Suc (Suc (Suc (Suc (Suc (Suc (Suc a))))))))"
  unfolding eight_Suc readable.simps by auto

lemma find_upt_Some:
  "find P [0..<n] = Some k \<longleftrightarrow> k < n \<and> P k \<and> (\<forall>j<k. \<not> P j)"
  by (auto simp: find_Some_iff)

lemma find_upt_None: "find P [0..<n] = None \<longleftrightarrow> (\<forall>k<n. \<not> P k)"
  by (auto simp: find_None_iff)

lemma covering_Some_iff:
  "covering h a = Some r \<longleftrightarrow>
     r \<le> a \<and> a < r + 64 \<and> h r \<noteq> None \<and> (\<forall>r'. r < r' \<and> r' \<le> a \<longrightarrow> h r' = None)"
proof
  assume "covering h a = Some r"
  then obtain k where k: "find (\<lambda>k. k \<le> a \<and> h (a - k) \<noteq> None) [0..<64] = Some k" "r = a - k"
    by (auto simp: covering_def)
  then have P: "k < 64" "k \<le> a" "h (a - k) \<noteq> None" "\<forall>j<k. \<not> (j \<le> a \<and> h (a - j) \<noteq> None)"
    by (simp_all add: find_upt_Some)
  have "h r' = None" if "r < r'" "r' \<le> a" for r'
  proof -
    have "a - r' < k" "a - r' \<le> a" using that k(2) P(2) by auto
    then have "h (a - (a - r')) = None" using P(4) by blast
    then show ?thesis using that by simp
  qed
  then show "r \<le> a \<and> a < r + 64 \<and> h r \<noteq> None \<and> (\<forall>r'. r < r' \<and> r' \<le> a \<longrightarrow> h r' = None)"
    using k(2) P by auto
next
  assume R: "r \<le> a \<and> a < r + 64 \<and> h r \<noteq> None \<and> (\<forall>r'. r < r' \<and> r' \<le> a \<longrightarrow> h r' = None)"
  have "find (\<lambda>k. k \<le> a \<and> h (a - k) \<noteq> None) [0..<64] = Some (a - r)"
    unfolding find_upt_Some using R by auto
  then show "covering h a = Some r"
    using R by (simp add: covering_def)
qed

lemma covering_None_iff:
  "covering h a = None \<longleftrightarrow> (\<forall>r. r \<le> a \<and> a < r + 64 \<longrightarrow> h r = None)"
proof
  assume "covering h a = None"
  then have N: "\<forall>k<64. \<not> (k \<le> a \<and> h (a - k) \<noteq> None)"
    by (simp add: covering_def find_upt_None)
  show "\<forall>r. r \<le> a \<and> a < r + 64 \<longrightarrow> h r = None"
  proof (intro allI impI)
    fix r assume r: "r \<le> a \<and> a < r + 64"
    then have "a - r < 64" "a - r \<le> a" by auto
    then have "h (a - (a - r)) = None" using N by blast
    then show "h r = None" using r by simp
  qed
next
  assume "\<forall>r. r \<le> a \<and> a < r + 64 \<longrightarrow> h r = None"
  then have "\<forall>k<64. \<not> (k \<le> a \<and> h (a - k) \<noteq> None)" by auto
  then show "covering h a = None"
    by (simp add: covering_def find_upt_None)
qed

lemma covering_empty: "covering Map.empty a = None"
  by (simp add: covering_None_iff)

lemma covering_upd:
  "covering (h(r \<mapsto> e)) a =
     (case covering h a of
        None \<Rightarrow> if r \<le> a \<and> a < r + 64 then Some r else None
      | Some r' \<Rightarrow> if r \<le> a \<and> a < r + 64 \<and> r' \<le> r then Some r else Some r')"
proof (cases "covering h a")
  case None
  then have N: "\<forall>x. x \<le> a \<and> a < x + 64 \<longrightarrow> h x = None"
    by (simp add: covering_None_iff)
  show ?thesis
  proof (cases "r \<le> a \<and> a < r + 64")
    case True
    have "covering (h(r \<mapsto> e)) a = Some r"
      unfolding covering_Some_iff using True N by auto
    then show ?thesis using None True by simp
  next
    case False
    have "covering (h(r \<mapsto> e)) a = None"
      unfolding covering_None_iff using False N by auto
    then show ?thesis using None False by simp
  qed
next
  case (Some r')
  then have S: "r' \<le> a" "a < r' + 64" "h r' \<noteq> None" "\<forall>x. r' < x \<and> x \<le> a \<longrightarrow> h x = None"
    by (simp_all add: covering_Some_iff)
  show ?thesis
  proof (cases "r \<le> a \<and> a < r + 64 \<and> r' \<le> r")
    case True
    have "covering (h(r \<mapsto> e)) a = Some r"
      unfolding covering_Some_iff using True S by auto
    then show ?thesis using Some True by simp
  next
    case False
    have "covering (h(r \<mapsto> e)) a = Some r'"
      unfolding covering_Some_iff using False S by auto
    then show ?thesis using Some False by auto
  qed
qed

lemma mark_Enter:
  "gc_mark_at Enter w s0 e0 start end c =
     gc_mark_at Outer w s0 e0 start (ptr_sub end sizeof_ptr) c"
  by (subst gc_mark_at.simps) simp

lemma mark_Outer:
  "gc_mark_at Outer w s0 e0 start end c =
     (if start \<le> end then gc_mark_at (Inner (head (st w))) w s0 e0 start end c
      else Some (Returns w))"
  by (subst gc_mark_at.simps) simp

lemmas mark_Inner =
  gc_mark_at.simps [where pc = "Inner e" for e, unfolded Let_def, simplified]

declare gc_memcmp_from.simps [simp del]

lemmas run_rules =
  mark_Enter mark_Outer mark_Inner and_then_simps returned_simps faulted_simps
  gc_reset_loop.simps [unfolded Let_def] gc_sweep_loop.simps [unfolded Let_def]
  gc_free_loop.simps [unfolded Let_def] gc_realloc_loop.simps [unfolded Let_def]
  gc_collect_def u_gc_collect_def [unfolded Let_def] gc_mark_def gc_sweep_def gc_free_def
  gc_realloc_def gc_alloc_def [unfolded Let_def] gc_init_def unlink_free_def
  gc_current_stack_top_def realloc_block_def [unfolded Let_def] new_world_def memset0_def
  self_skip_def gc_memcmp_def gc_memcmp_from.simps load64_unfold store64_unfold
  read_word_def read_byte_def readable_1 readable_8 view_def covering_empty covering_upd
  entry_byte_def state_byte_def regs_byte_def field_byte_def ptr_add_def ptr_sub_def addr_space_def
  user_top_def grant_def low_memory_def
  regs_words_def zero_regs_def zero_mem_def
  GC_SCAN_STACK_def GC_SCAN_HEAPS_def GC_SCAN_DATA_SECTION_def GC_SCAN_BSS_SECTION_def
  GC_SCAN_REGISTERS_def GC_ALLOC_THRESHOLD_def GC_TAG_ENTRY_def GC_TAG_STATE_def
  sizeof_ptr_def sizeof_tag_def sizeof_gc_entry_def sizeof_gc_state_def sizeof_arch_regs_def
  record_at_def block_at_def reads_of_def seen_of_def cycles_of_def head_of_def world_of_def ptr_of_def
  ex_state_def raw0_def

section \<open>Unlinking from a well-formed registry\<close>

lemma hd0_simps [simp]: "hd0 [] = 0" "hd0 (x # xs) = x"
  by (simp_all add: hd0_def)

lemma dll_nonzero: "dll h p a xs \<Longrightarrow> 0 \<notin> set xs"
  by (induction xs arbitrary: p a) (auto split: option.splits)

lemma dll_Some: "dll h p a xs \<Longrightarrow> x \<in> set xs \<Longrightarrow> \<exists>e. h x = Some e"
  by (induction xs arbitrary: p a) (auto split: option.splits)

lemma dll_hd: "dll h p a xs \<Longrightarrow> a = hd0 xs"
  by (cases xs) auto

lemma dll_links:
  "(\<And>x. x \<in> set xs \<Longrightarrow> map_option entry_links (h' x) = map_option entry_links (h x)) \<Longrightarrow>
   dll h' p a xs = dll h p a xs"
proof (induction xs arbitrary: p a)
  case Nil
  then show ?case by simp
next
  case (Cons x xs)
  have hx: "map_option entry_links (h' x) = map_option entry_links (h x)"
    using Cons.prems by simp
  have rest: "\<And>q b. dll h' q b xs = dll h q b xs"
    using Cons.IH Cons.prems by simp
  show ?case
    using hx rest by (cases "h x"; cases "h' x") (auto simp: entry_links_def)
qed

lemma dll_split:
  "dll h p a (ps @ x # rs) \<Longrightarrow>
   \<exists>e. h x = Some e \<and> prev_e e = (if ps = [] then p else last ps) \<and>
       next_e e = hd0 rs \<and> dll h x (hd0 rs) rs"
proof (induction ps arbitrary: p a)
  case Nil
  then obtain e where e: "h x = Some e" "prev_e e = p" "dll h x (next_e e) rs"
    by (auto split: option.splits)
  from e(3) have "next_e e = hd0 rs" by (rule dll_hd)
  with e show ?case by auto
next
  case (Cons z ps)
  then show ?case by (auto split: option.splits)
qed

lemma unlink_heap:
  assumes "dll h q a (ps @ x # rs)" and "distinct (ps @ x # rs)" and "q \<notin> set (ps @ x # rs)"
    and "h x = Some e"
    and h1: "h1 = (if prev_e e \<noteq> 0 then h(prev_e e := map_option (\<lambda>pe. pe\<lparr>next_e := next_e e\<rparr>) (h (prev_e e))) else h)"
    and h2: "h2 = (if next_e e \<noteq> 0 then h1(next_e e := map_option (\<lambda>ne. ne\<lparr>prev_e := prev_e e\<rparr>) (h1 (next_e e))) else h1)"
    and h3: "h3 = h2(x := None)"
  shows "dll h3 q (if ps = [] then next_e e else a) (ps @ rs)"
  using assms(1-3)
proof (induction ps arbitrary: q a)
  case Nil
  have e0: "prev_e e = q" "dll h x (next_e e) rs" "a = x" "x \<noteq> 0"
    using Nil(1) assms(4) by auto
  from e0(2) have "next_e e = hd0 rs" by (rule dll_hd)
  with e0 have e: "prev_e e = q" "next_e e = hd0 rs" "dll h x (hd0 rs) rs" "a = x" "x \<noteq> 0"
    by auto
  show ?case
  proof (cases rs)
    case Nil
    then show ?thesis using e by simp
  next
    case (Cons y rs')
    then obtain ey where ey: "h y = Some ey" "prev_e ey = x" "dll h y (next_e ey) rs'" "y \<noteq> 0"
      using e by (auto split: option.splits)
    have ne: "y \<noteq> x" "y \<noteq> q" "y \<notin> set rs'" "x \<notin> set rs'" "q \<notin> set rs'"
      using Nil(2,3) Cons by auto
    have h3y: "h3 y = Some (ey\<lparr>prev_e := q\<rparr>)"
      using ey ne e Cons by (simp add: h1 h2 h3)
    have "\<And>z. z \<in> set rs' \<Longrightarrow> h3 z = h z"
      using ne e Cons by (auto simp: h1 h2 h3)
    then have "dll h3 y (next_e ey) rs' = dll h y (next_e ey) rs'"
      by (intro dll_links) simp
    then show ?thesis using h3y ey Cons e by simp
  qed
next
  case (Cons z ps)
  then obtain ez where ez: "a = z" "z \<noteq> 0" "h z = Some ez" "prev_e ez = q"
      "dll h z (next_e ez) (ps @ x # rs)"
    by (auto split: option.splits)
  have dz: "distinct (ps @ x # rs)" "z \<notin> set (ps @ x # rs)"
    using Cons.prems(2) by auto
  have IH: "dll h3 z (if ps = [] then next_e e else next_e ez) (ps @ rs)"
    using Cons.IH [OF ez(5) dz] .
  obtain e' where e': "h x = Some e'" "prev_e e' = (if ps = [] then z else last ps)"
      "next_e e' = hd0 rs"
    using dll_split [OF ez(5)] by auto
  then have ee: "prev_e e = (if ps = [] then z else last ps)" "next_e e = hd0 rs"
    using assms(4) by auto
  have nz: "next_e e \<noteq> z"
  proof (cases rs)
    case Nil then show ?thesis using ee ez by simp
  next
    case (Cons y rs') then show ?thesis using ee dz by auto
  qed
  have h3z: "h3 z = Some (if ps = [] then ez\<lparr>next_e := next_e e\<rparr> else ez)"
  proof (cases "ps = []")
    case True
    then show ?thesis using ee ez dz nz by (simp add: h1 h2 h3)
  next
    case False
    then have "last ps \<in> set ps" by simp
    then have "last ps \<noteq> z" using dz by auto
    then show ?thesis using False ee ez dz nz by (auto simp: h1 h2 h3)
  qed
  show ?case
    using h3z IH ez by (cases "ps = []") auto
qed


lemma unlink_free_registry:
  assumes d: "dll (ents w) 0 (head (st w)) (ps @ x # rs)" and dist: "distinct (ps @ x # rs)"
  shows "\<exists>w1 e. ents w x = Some e \<and> unlink_free w x = Some w1 \<and>
           dll (ents w1) 0 (head (st w1)) (ps @ rs) \<and> ents w1 x = None \<and>
           (\<forall>a. a \<noteq> x \<longrightarrow> map_option entry_data (ents w1 a) = map_option entry_data (ents w a)) \<and>
           blocks w1 = (blocks w)(ptr e := None) \<and> mem w1 = mem w \<and> mapped w1 = mapped w \<and>
           self w1 = self w \<and> gp_registers w1 = gp_registers w \<and> regs_at w1 = regs_at w \<and>
           reads w1 = reads w \<and> seen w1 = seen w \<and> cycles w1 = cycles w \<and>
           (st w1)\<lparr>head := 0\<rparr> = (st w)\<lparr>head := 0\<rparr>"
proof -
  obtain e where e: "ents w x = Some e" "prev_e e = (if ps = [] then 0 else last ps)"
      "next_e e = hd0 rs" "dll (ents w) x (hd0 rs) rs"
    using dll_split [OF d] by auto
  define h1 where "h1 = (if prev_e e \<noteq> 0 then (ents w)(prev_e e := map_option (\<lambda>pe. pe\<lparr>next_e := next_e e\<rparr>) (ents w (prev_e e))) else ents w)"
  define h2 where "h2 = (if next_e e \<noteq> 0 then h1(next_e e := map_option (\<lambda>ne. ne\<lparr>prev_e := prev_e e\<rparr>) (h1 (next_e e))) else h1)"
  define h3 where "h3 = h2(x := None)"
  have nz: "0 \<notin> set (ps @ x # rs)" using d by (rule dll_nonzero)
  have D: "dll h3 0 (if ps = [] then next_e e else head (st w)) (ps @ rs)"
    using unlink_heap [OF d dist nz e(1) h1_def h2_def h3_def] .
  have lp: "last ps \<noteq> 0 \<and> last ps \<noteq> x" if "ps \<noteq> []"
  proof -
    from that have "last ps \<in> set ps" by simp
    moreover have "0 \<notin> set ps" "x \<notin> set ps" using nz dist by auto
    ultimately show ?thesis by metis
  qed
  have pz: "prev_e e \<noteq> 0 \<longleftrightarrow> ps \<noteq> []"
    using e(2) lp by (cases "ps = []") simp_all
  have px: "prev_e e \<noteq> x"
    using e(2) nz lp by (cases "ps = []") auto
  have nx: "next_e e \<noteq> x"
    using e(3) nz dist by (cases rs) auto
  have pS: "prev_e e \<noteq> 0 \<Longrightarrow> \<exists>pe. ents w (prev_e e) = Some pe"
    using dll_Some [OF d, of "last ps"] e(2) pz by auto
  have nS: "next_e e \<noteq> 0 \<Longrightarrow> \<exists>ne. h1 (next_e e) = Some ne"
    using dll_Some [OF d, of "hd0 rs"] e(3) by (cases rs) (auto simp: h1_def)
  let ?w1 = "w\<lparr>st := (st w)\<lparr>head := (if ps = [] then next_e e else head (st w))\<rparr>,
              ents := h3, blocks := (blocks w)(ptr e := None)\<rparr>"
  have run: "unlink_free w x = Some ?w1"
    using e(1) pz px nx pS nS
    by (auto simp: unlink_free_def h1_def h2_def h3_def fun_upd_twist)
  have data: "\<forall>a. a \<noteq> x \<longrightarrow> map_option entry_data (h3 a) = map_option entry_data (ents w a)"
    using pS nS by (auto simp: h1_def h2_def h3_def entry_data_def)
  show ?thesis
    using e(1) run D data by (intro exI [of _ ?w1] exI [of _ e]) (simp add: h3_def)
qed


lemma same_outside_registry_refl [simp]: "same_outside_registry w w"
  by (simp add: same_outside_registry_def)

lemma same_outside_registry_trans:
  "same_outside_registry w w1 \<Longrightarrow> same_outside_registry w1 w2 \<Longrightarrow> same_outside_registry w w2"
  by (simp add: same_outside_registry_def)

lemma unlink_free_step:
  assumes "dll (ents w) 0 (head (st w)) (ps @ x # rs)" and "distinct (ps @ x # rs)"
  shows "\<exists>w1 e. ents w x = Some e \<and> unlink_free w x = Some w1 \<and>
           dll (ents w1) 0 (head (st w1)) (ps @ rs) \<and> ents w1 x = None \<and>
           (\<forall>a. a \<noteq> x \<longrightarrow> map_option entry_data (ents w1 a) = map_option entry_data (ents w a)) \<and>
           blocks w1 = (blocks w)(ptr e := None) \<and> same_outside_registry w w1"
  using unlink_free_registry [OF assms] unfolding same_outside_registry_def by blast

lemma selected_data:
  assumes "\<And>e e'. entry_data e = entry_data e' \<Longrightarrow> P e = P e'"
    and "map_option entry_data (ents w1 a) = map_option entry_data (ents w a)"
  shows "selected P w1 a = selected P w a"
proof (cases "ents w1 a")
  case None
  then show ?thesis using assms(2) by (simp add: selected_def)
next
  case (Some ea)
  then obtain eb where eb: "ents w a = Some eb" "entry_data ea = entry_data eb"
    using assms(2) by (cases "ents w a") auto
  show ?thesis using Some eb(1) assms(1) [OF eb(2)] by (simp add: selected_def)
qed

lemma unlink_loop_registry:
  fixes L :: "world \<Rightarrow> addr \<Rightarrow> world option"
  assumes eq: "\<And>w entry. L w entry =
      (if entry = 0 then Some w
       else do {
         e \<leftarrow> ents w entry;
         if P e then do { w' \<leftarrow> unlink_free w entry; L w' (next_e e) } else L w (next_e e)
       })"
    and P: "\<And>e e'. entry_data e = entry_data e' \<Longrightarrow> P e = P e'"
    and "dll (ents w) 0 (head (st w)) (ps @ rs)" and "distinct (ps @ rs)"
  shows "\<exists>w'. L w (hd0 rs) = Some w' \<and>
           dll (ents w') 0 (head (st w')) (ps @ filter (\<lambda>a. \<not> selected P w a) rs) \<and>
           (\<forall>a\<in>set rs. selected P w a \<longrightarrow> ents w' a = None) \<and>
           (\<forall>a. \<not> (a \<in> set rs \<and> selected P w a) \<longrightarrow>
                map_option entry_data (ents w' a) = map_option entry_data (ents w a)) \<and>
           (\<forall>b. blocks w' b =
                (if \<exists>a\<in>set rs. \<exists>e. ents w a = Some e \<and> P e \<and> ptr e = b then None
                 else blocks w b)) \<and>
           ((\<forall>a\<in>set rs. \<not> selected P w a) \<longrightarrow> w' = w) \<and>
           same_outside_registry w w'"
  using assms(3,4)
proof (induction rs arbitrary: w ps)
  case Nil
  then show ?case by (subst eq) simp
next
  case (Cons x rs)
  obtain e where e: "ents w x = Some e" "next_e e = hd0 rs"
    using dll_split [OF Cons.prems(1)] by auto
  have xnz: "x \<noteq> 0"
    using dll_nonzero [OF Cons.prems(1)] by auto
  show ?case
  proof (cases "P e")
    case True
    obtain w1 e1 where w1: "ents w x = Some e1" "unlink_free w x = Some w1"
        "dll (ents w1) 0 (head (st w1)) (ps @ rs)" "ents w1 x = None"
        "\<forall>a. a \<noteq> x \<longrightarrow> map_option entry_data (ents w1 a) = map_option entry_data (ents w a)"
        "blocks w1 = (blocks w)(ptr e1 := None)" "same_outside_registry w w1"
      using unlink_free_step [OF Cons.prems] by blast
    have e1: "e1 = e" using w1(1) e(1) by simp
    have dist: "distinct (ps @ rs)" "x \<notin> set rs" using Cons.prems(2) by auto
    obtain w' where w': "L w1 (hd0 rs) = Some w'"
        "dll (ents w') 0 (head (st w')) (ps @ filter (\<lambda>a. \<not> selected P w1 a) rs)"
        "\<forall>a\<in>set rs. selected P w1 a \<longrightarrow> ents w' a = None"
        "\<forall>a. \<not> (a \<in> set rs \<and> selected P w1 a) \<longrightarrow>
                map_option entry_data (ents w' a) = map_option entry_data (ents w1 a)"
        "\<forall>b. blocks w' b =
                (if \<exists>a\<in>set rs. \<exists>e. ents w1 a = Some e \<and> P e \<and> ptr e = b then None
                 else blocks w1 b)"
        "same_outside_registry w1 w'"
      using Cons.IH [OF w1(3) dist(1)] by blast
    have same: "\<And>a. a \<in> set rs \<Longrightarrow> selected P w1 a = selected P w a"
      using w1(5) dist(2) by (intro selected_data [OF P]) auto
    have sx: "selected P w x" using e(1) True by (simp add: selected_def)
    have filt: "filter (\<lambda>a. \<not> selected P w1 a) rs = filter (\<lambda>a. \<not> selected P w a) rs"
      using same by (intro filter_cong) auto
    have run: "L w (hd0 (x # rs)) = Some w'"
      using e True w1(2) w'(1) xnz by (subst eq) simp
    have gone: "\<forall>a\<in>set (x # rs). selected P w a \<longrightarrow> ents w' a = None"
    proof (intro ballI impI)
      fix a assume a: "a \<in> set (x # rs)" "selected P w a"
      show "ents w' a = None"
      proof (cases "a = x")
        case True
        have "map_option entry_data (ents w' x) = map_option entry_data (ents w1 x)"
          using w'(4) dist(2) by blast
        then show ?thesis using True w1(4) by simp
      next
        case False
        then show ?thesis using a w'(3) same by auto
      qed
    qed
    have kept: "\<forall>a. \<not> (a \<in> set (x # rs) \<and> selected P w a) \<longrightarrow>
                map_option entry_data (ents w' a) = map_option entry_data (ents w a)"
    proof (intro allI impI)
      fix a assume a: "\<not> (a \<in> set (x # rs) \<and> selected P w a)"
      then have ax: "a \<noteq> x" using sx by auto
      have "\<not> (a \<in> set rs \<and> selected P w1 a)" using a same by auto
      then have "map_option entry_data (ents w' a) = map_option entry_data (ents w1 a)"
        using w'(4) by blast
      then show "map_option entry_data (ents w' a) = map_option entry_data (ents w a)"
        using w1(5) ax by simp
    qed
    have ptr_same: "\<And>a b. a \<in> set rs \<Longrightarrow>
        (\<exists>e. ents w1 a = Some e \<and> P e \<and> ptr e = b) = (\<exists>e. ents w a = Some e \<and> P e \<and> ptr e = b)"
    proof -
      fix a b assume "a \<in> set rs"
      then have m: "map_option entry_data (ents w1 a) = map_option entry_data (ents w a)"
        using w1(5) dist(2) by auto
      show "(\<exists>e. ents w1 a = Some e \<and> P e \<and> ptr e = b) = (\<exists>e. ents w a = Some e \<and> P e \<and> ptr e = b)"
      proof (cases "ents w1 a")
        case None
        then show ?thesis using m by simp
      next
        case (Some ea)
        then obtain eb where eb: "ents w a = Some eb" "entry_data ea = entry_data eb"
          using m by (cases "ents w a") auto
        have "P ea = P eb" using P [OF eb(2)] .
        moreover have "ptr ea = ptr eb" using eb(2) by (simp add: entry_data_def)
        ultimately show ?thesis using Some eb(1) by simp
      qed
    qed
    have blk: "\<forall>b. blocks w' b =
                (if \<exists>a\<in>set (x # rs). \<exists>e. ents w a = Some e \<and> P e \<and> ptr e = b then None
                 else blocks w b)"
    proof
      fix b
      have "blocks w' b = (if \<exists>a\<in>set rs. \<exists>e. ents w a = Some e \<and> P e \<and> ptr e = b then None
                 else blocks w1 b)"
        using w'(5) ptr_same by simp
      then show "blocks w' b =
                (if \<exists>a\<in>set (x # rs). \<exists>e. ents w a = Some e \<and> P e \<and> ptr e = b then None
                 else blocks w b)"
        using w1(6) e1 e(1) True by auto
    qed
    show ?thesis
      using run w'(2) filt sx gone kept blk same_outside_registry_trans [OF w1(7) w'(6)]
      by (intro exI [of _ w']) auto
  next
    case False
    have d': "dll (ents w) 0 (head (st w)) ((ps @ [x]) @ rs)" "distinct ((ps @ [x]) @ rs)"
      using Cons.prems by auto
    obtain w' where w': "L w (hd0 rs) = Some w'"
        "dll (ents w') 0 (head (st w')) ((ps @ [x]) @ filter (\<lambda>a. \<not> selected P w a) rs)"
        "\<forall>a\<in>set rs. selected P w a \<longrightarrow> ents w' a = None"
        "\<forall>a. \<not> (a \<in> set rs \<and> selected P w a) \<longrightarrow>
                map_option entry_data (ents w' a) = map_option entry_data (ents w a)"
        "\<forall>b. blocks w' b =
                (if \<exists>a\<in>set rs. \<exists>e. ents w a = Some e \<and> P e \<and> ptr e = b then None
                 else blocks w b)"
        "(\<forall>a\<in>set rs. \<not> selected P w a) \<longrightarrow> w' = w"
        "same_outside_registry w w'"
      using Cons.IH [OF d'] by blast
    have nsx: "\<not> selected P w x" using e(1) False by (simp add: selected_def)
    have run: "L w (hd0 (x # rs)) = Some w'"
      using e False w'(1) xnz by (subst eq) simp
    have blk: "\<forall>b. blocks w' b =
                (if \<exists>a\<in>set (x # rs). \<exists>e. ents w a = Some e \<and> P e \<and> ptr e = b then None
                 else blocks w b)"
      using w'(5) e(1) False by auto
    show ?thesis
      using run w'(2,3,4,6,7) blk nsx by (intro exI [of _ w']) auto
  qed
qed


lemma gc_free_loop_eq:
  "gc_free_loop w p entry =
     (if entry = 0 then Some w
      else do {
        e \<leftarrow> ents w entry;
        if ptr e = p then do { w' \<leftarrow> unlink_free w entry; gc_free_loop w' p (next_e e) }
        else gc_free_loop w p (next_e e)
      })"
  by (subst gc_free_loop.simps) (simp add: Let_def)

lemma gc_sweep_loop_eq:
  "gc_sweep_loop w entry =
     (if entry = 0 then Some w
      else do {
        e \<leftarrow> ents w entry;
        if reachable e = False then do { w' \<leftarrow> unlink_free w entry; gc_sweep_loop w' (next_e e) }
        else gc_sweep_loop w (next_e e)
      })"
  by (subst gc_sweep_loop.simps) (simp add: Let_def)

lemma registry_hd: "registry w as \<Longrightarrow> head (st w) = hd0 as"
  unfolding registry_def by (auto dest: dll_hd)


section \<open>Allocation failure\<close>

text \<open>
  Claim C7. When \<^verbatim>\<open>malloc\<close> of the payload fails, \<open>gc_alloc\<close> returns null and the
  world is unchanged. When the payload is obtained at \<open>p\<close> but \<^verbatim>\<open>malloc\<close> of the
  registry record fails, \<open>gc_alloc\<close> returns null, the payload block at \<open>p\<close> is no
  longer live, and the registry records, the collector state (head, allocation counter,
  threshold, flags), every other block and the cycle count are as before.
\<close>

theorem gc_alloc_failure_no_partial_state:
  "gc_alloc w sz init 0 q raw cpu heaps = Some (Returns (0, w)) \<and>
   (p \<noteq> 0 \<longrightarrow>
     (\<exists>w'. gc_alloc w sz init p 0 raw cpu heaps = Some (Returns (0, w')) \<and>
           ents w' = ents w \<and> st w' = st w \<and> blocks w' p = None \<and>
           (\<forall>a. a \<noteq> p \<longrightarrow> blocks w' a = blocks w a) \<and>
           gp_registers w' = gp_registers w \<and> cycles w' = cycles w \<and> reads w' = reads w \<and>
           seen w' = seen w \<and> self w' = self w \<and> regs_at w' = regs_at w))"
  by (simp add: gc_alloc_def Let_def)

theorem gc_alloc_failure_no_partial_state_witness:
  "gc_alloc (new_world (ex_state 1) 1024 2048 zero_mem low_memory) 4 True 0 0 raw0 zero_regs [] =
     Some (Returns (0, new_world (ex_state 1) 1024 2048 zero_mem low_memory)) \<and>
   (8192 \<noteq> (0::nat) \<and>
     (\<exists>w'. gc_alloc (new_world (ex_state 1) 1024 2048 zero_mem low_memory) 4 True 8192 0 raw0 zero_regs [] = Some (Returns (0, w')) \<and>
           ents w' = ents (new_world (ex_state 1) 1024 2048 zero_mem low_memory) \<and>
           st w' = st (new_world (ex_state 1) 1024 2048 zero_mem low_memory) \<and> blocks w' 8192 = None \<and>
           (\<forall>a. a \<noteq> 8192 \<longrightarrow> blocks w' a = blocks (new_world (ex_state 1) 1024 2048 zero_mem low_memory) a) \<and>
           gp_registers w' = gp_registers (new_world (ex_state 1) 1024 2048 zero_mem low_memory) \<and>
           cycles w' = cycles (new_world (ex_state 1) 1024 2048 zero_mem low_memory) \<and>
           reads w' = reads (new_world (ex_state 1) 1024 2048 zero_mem low_memory) \<and>
           seen w' = seen (new_world (ex_state 1) 1024 2048 zero_mem low_memory) \<and>
           self w' = self (new_world (ex_state 1) 1024 2048 zero_mem low_memory) \<and>
           regs_at w' = regs_at (new_world (ex_state 1) 1024 2048 zero_mem low_memory)))"
  using gc_alloc_failure_no_partial_state
          [of "new_world (ex_state 1) 1024 2048 zero_mem low_memory" 4 True 0 raw0 zero_regs "[]" 8192]
  by simp


section \<open>Register pre-marking\<close>

text \<open>
  Claim C1 says that the payload of every record that becomes marked is scanned, also
  when the record is pre-marked from the register snapshot. The code run on
  \<open>two_records\<close>, with A's base in \<^verbatim>\<open>rax\<close> and on the stack and B's base only in A's
  payload: with the stack and registers flags, A is pre-marked, the stack scan finds
  A already marked and reads nothing but the one stack word (once per record), and B's
  record and payload are released. With the stack flag alone the same cycle scans A's
  payload and keeps B.
\<close>

theorem premarked_payload_not_scanned:
  "record_at 100 (returned (gc_collect (two_records (GC_SCAN_STACK OR GC_SCAN_REGISTERS)) cpu_holding_A [])) =
     Some (Some \<lparr>ptr = 8192, size_e = 8, reachable = True, reach_addr = 0,
                 next_e = 0, prev_e = 0\<rparr>) \<and>
   record_at 200 (returned (gc_collect (two_records (GC_SCAN_STACK OR GC_SCAN_REGISTERS)) cpu_holding_A [])) =
     Some None \<and>
   block_at 12288 (returned (gc_collect (two_records (GC_SCAN_STACK OR GC_SCAN_REGISTERS)) cpu_holding_A [])) =
     Some None \<and>
   reads_of (returned (gc_collect (two_records (GC_SCAN_STACK OR GC_SCAN_REGISTERS)) cpu_holding_A [])) =
     Some [(False, 28664, 28672, 28664), (False, 28664, 28672, 28664)] \<and>
   record_at 200 (returned (gc_collect (two_records GC_SCAN_STACK) cpu_holding_A [])) =
     Some (Some \<lparr>ptr = 12288, size_e = 8, reachable = True, reach_addr = 8192,
                 next_e = 100, prev_e = 0\<rparr>)"
proof -
  have a: "record_at 100 (returned (gc_collect (two_records (GC_SCAN_STACK OR GC_SCAN_REGISTERS)) cpu_holding_A [])) =
     Some (Some \<lparr>ptr = 8192, size_e = 8, reachable = True, reach_addr = 0,
                 next_e = 0, prev_e = 0\<rparr>)"
    unfolding two_records_def cpu_holding_A_def
    by (simp add: run_rules cong: bind_weak_cong and_then_weak_cong)
  have b: "record_at 200 (returned (gc_collect (two_records (GC_SCAN_STACK OR GC_SCAN_REGISTERS)) cpu_holding_A [])) =
     Some None"
    unfolding two_records_def cpu_holding_A_def
    by (simp add: run_rules cong: bind_weak_cong and_then_weak_cong)
  have c: "block_at 12288 (returned (gc_collect (two_records (GC_SCAN_STACK OR GC_SCAN_REGISTERS)) cpu_holding_A [])) =
     Some None"
    unfolding two_records_def cpu_holding_A_def
    by (simp add: run_rules cong: bind_weak_cong and_then_weak_cong)
  have d: "reads_of (returned (gc_collect (two_records (GC_SCAN_STACK OR GC_SCAN_REGISTERS)) cpu_holding_A [])) =
     Some [(False, 28664, 28672, 28664), (False, 28664, 28672, 28664)]"
    unfolding two_records_def cpu_holding_A_def
    by (simp add: run_rules cong: bind_weak_cong and_then_weak_cong)
  have e: "record_at 200 (returned (gc_collect (two_records GC_SCAN_STACK) cpu_holding_A [])) =
     Some (Some \<lparr>ptr = 12288, size_e = 8, reachable = True, reach_addr = 8192,
                 next_e = 100, prev_e = 0\<rparr>)"
    unfolding two_records_def cpu_holding_A_def
    by (simp add: run_rules cong: bind_weak_cong and_then_weak_cong)
  show ?thesis by (intro conjI a b c d e)
qed

section \<open>Resizing\<close>

text \<open>
  Claim C2 says that a successful resize to \<open>k\<close> leaves the record's size equal to \<open>k\<close>.
  The code run on \<open>one_record\<close> (a four-byte allocation at 8192), resized to eight bytes
  with the underlying \<^verbatim>\<open>realloc\<close> returning 12288: the new address is returned and stored
  in the record, the allocator's block has eight bytes, and the record's size is still
  four.
\<close>

theorem gc_realloc_keeps_old_size:
  "ptr_of (returned (gc_realloc one_record 8192 8 12288 0 0 raw0 zero_regs [])) = Some 12288 \<and>
   record_at 100 (world_of (returned (gc_realloc one_record 8192 8 12288 0 0 raw0 zero_regs []))) =
     Some (Some \<lparr>ptr = 12288, size_e = 4, reachable = False, reach_addr = 0,
                 next_e = 0, prev_e = 0\<rparr>) \<and>
   block_at 12288 (world_of (returned (gc_realloc one_record 8192 8 12288 0 0 raw0 zero_regs []))) =
     Some (Some 8)"
proof -
  have a: "ptr_of (returned (gc_realloc one_record 8192 8 12288 0 0 raw0 zero_regs [])) = Some 12288"
    unfolding one_record_def by (simp add: run_rules cong: bind_weak_cong and_then_weak_cong)
  have b: "record_at 100 (world_of (returned (gc_realloc one_record 8192 8 12288 0 0 raw0 zero_regs []))) =
     Some (Some \<lparr>ptr = 12288, size_e = 4, reachable = False, reach_addr = 0,
                 next_e = 0, prev_e = 0\<rparr>)"
    unfolding one_record_def by (simp add: run_rules cong: bind_weak_cong and_then_weak_cong)
  have c: "block_at 12288 (world_of (returned (gc_realloc one_record 8192 8 12288 0 0 raw0 zero_regs []))) =
     Some (Some 8)"
    unfolding one_record_def by (simp add: run_rules cong: bind_weak_cong and_then_weak_cong)
  show ?thesis by (intro conjI a b c)
qed

section \<open>The allocation counter\<close>

text \<open>
  Claim C3 says that after \<open>gc_init\<close> the first automatic cycle happens on the
  \<open>T\<close>-th successful allocation and never earlier. \<open>gc_init\<close> assigns every field of the
  fresh state except \<^verbatim>\<open>allocations\<close>, which keeps what the block held. On a block that
  held 127 there, the state after \<open>gc_init\<close> has threshold 128 and counter 127, and the
  first successful allocation starts a cycle.
\<close>

theorem first_allocation_can_start_cycle:
  "gc_init GC_SCAN_STACK (Some stale_block) 28672
       \<lparr>region_start = 20480, region_end = 20480\<rparr> \<lparr>region_start = 24576, region_end = 24576\<rparr> =
     Some ((ex_state 1)\<lparr>allocations := 127, threshold := 128\<rparr>) \<and>
   cycles_of (world_of (returned
      (gc_alloc (new_world ((ex_state 1)\<lparr>allocations := 127, threshold := 128\<rparr>)
                   1024 2048 zero_mem low_memory)
         4 True 8192 100 raw0 (zero_regs\<lparr>rsp := 28672\<rparr>) []))) = Some 1"
proof -
  have a: "gc_init GC_SCAN_STACK (Some stale_block) 28672
       \<lparr>region_start = 20480, region_end = 20480\<rparr> \<lparr>region_start = 24576, region_end = 24576\<rparr> =
     Some ((ex_state 1)\<lparr>allocations := 127, threshold := 128\<rparr>)"
    unfolding stale_block_def by (simp add: run_rules)
  have b: "cycles_of (world_of (returned
      (gc_alloc (new_world ((ex_state 1)\<lparr>allocations := 127, threshold := 128\<rparr>)
                   1024 2048 zero_mem low_memory)
         4 True 8192 100 raw0 (zero_regs\<lparr>rsp := 28672\<rparr>) []))) = Some 1"
    by (simp add: run_rules cong: bind_weak_cong and_then_weak_cong)
  show ?thesis by (intro conjI a b)
qed

section \<open>Self-skip\<close>

text \<open>
  Claim C4 says that on a tag match the cursor advances by the record size less one
  word and the scan stays word-aligned. The code adds the record size less one byte.
  On \<open>tagged_heap\<close>, a scan of \<open>[4096, 4176)\<close> with self-skip moves the cursor from 4096
  to 4159, reads the words at 4159 and 4167 (the word at 4159 begins with the last byte
  of the record's \<^verbatim>\<open>prev\<close> field), and never reads the aligned word at 4160, so the
  allocation whose base is stored there stays unmarked; the same scan without self-skip
  marks it at 4160.
\<close>

theorem self_skip_misaligns_cursor:
  "self_skip tagged_heap True 4096 = Some (4096 + sizeof_gc_entry - 1) \<and>
   reads_of (returned (gc_mark tagged_heap 4096 4176 True)) =
     Some [(True, 4096, 4176, 4159), (True, 4096, 4176, 4167)] \<and>
   record_at 100 (returned (gc_mark tagged_heap 4096 4176 True)) =
     Some (Some \<lparr>ptr = 8192, size_e = 8, reachable = False, reach_addr = 0,
                 next_e = 0, prev_e = 0\<rparr>) \<and>
   record_at 100 (returned (gc_mark tagged_heap 4096 4176 False)) =
     Some (Some \<lparr>ptr = 8192, size_e = 8, reachable = True, reach_addr = 4160,
                 next_e = 0, prev_e = 0\<rparr>)"
proof -
  have a: "self_skip tagged_heap True 4096 = Some (4096 + sizeof_gc_entry - 1)"
    unfolding tagged_heap_def by (simp add: run_rules)
  have b: "reads_of (returned (gc_mark tagged_heap 4096 4176 True)) =
     Some [(True, 4096, 4176, 4159), (True, 4096, 4176, 4167)]"
    unfolding tagged_heap_def by (simp add: run_rules cong: bind_weak_cong and_then_weak_cong)
  have c: "record_at 100 (returned (gc_mark tagged_heap 4096 4176 True)) =
     Some (Some \<lparr>ptr = 8192, size_e = 8, reachable = False, reach_addr = 0,
                 next_e = 0, prev_e = 0\<rparr>)"
    unfolding tagged_heap_def by (simp add: run_rules cong: bind_weak_cong and_then_weak_cong)
  have d: "record_at 100 (returned (gc_mark tagged_heap 4096 4176 False)) =
     Some (Some \<lparr>ptr = 8192, size_e = 8, reachable = True, reach_addr = 4160,
                 next_e = 0, prev_e = 0\<rparr>)"
    unfolding tagged_heap_def by (simp add: run_rules cong: bind_weak_cong and_then_weak_cong)
  show ?thesis by (intro conjI a b c d)
qed


section \<open>Explicit release\<close>

text \<open>
  Claim C10. On a well-formed registry, \<open>gc_free\<close> with a non-null \<open>p\<close> returns; every
  record whose base is \<open>p\<close> is gone from the store, not only the first one; the remaining
  records, in their old order, form a well-formed doubly-linked list again, whose head
  is the first remaining record; the payload fields of every other record are
  untouched; the block at \<open>p\<close> is released when some record matched; and when no
  record's base is \<open>p\<close> the world is unchanged.
\<close>

theorem gc_free_unlinks_every_match:
  assumes "registry w as" and "p \<noteq> 0"
  shows "\<exists>w'. gc_free w p = Some w' \<and>
           registry w' (filter (\<lambda>a. \<not> base_is w p a) as) \<and>
           head (st w') = hd0 (filter (\<lambda>a. \<not> base_is w p a) as) \<and>
           (\<forall>a\<in>set as. base_is w p a \<longrightarrow> ents w' a = None) \<and>
           (\<forall>a. \<not> (a \<in> set as \<and> base_is w p a) \<longrightarrow>
                map_option entry_data (ents w' a) = map_option entry_data (ents w a)) \<and>
           (\<forall>b. blocks w' b =
                (if b = p \<and> (\<exists>a\<in>set as. base_is w p a) then None else blocks w b)) \<and>
           ((\<forall>a\<in>set as. \<not> base_is w p a) \<longrightarrow> w' = w) \<and>
           same_outside_registry w w'"
proof -
  have d: "dll (ents w) 0 (head (st w)) ([] @ as)" "distinct ([] @ as)"
    using assms(1) by (simp_all add: registry_def)
  have P: "\<And>e e'. entry_data e = entry_data e' \<Longrightarrow> (ptr e = p) = (ptr e' = p)"
    by (simp add: entry_data_def)
  obtain w' where w': "gc_free_loop w p (hd0 as) = Some w'"
      "dll (ents w') 0 (head (st w')) ([] @ filter (\<lambda>a. \<not> selected (\<lambda>e. ptr e = p) w a) as)"
      "\<forall>a\<in>set as. selected (\<lambda>e. ptr e = p) w a \<longrightarrow> ents w' a = None"
      "\<forall>a. \<not> (a \<in> set as \<and> selected (\<lambda>e. ptr e = p) w a) \<longrightarrow>
                map_option entry_data (ents w' a) = map_option entry_data (ents w a)"
      "\<forall>b. blocks w' b =
                (if \<exists>a\<in>set as. \<exists>e. ents w a = Some e \<and> ptr e = p \<and> ptr e = b then None
                 else blocks w b)"
      "(\<forall>a\<in>set as. \<not> selected (\<lambda>e. ptr e = p) w a) \<longrightarrow> w' = w"
      "same_outside_registry w w'"
    using unlink_loop_registry [where L = "\<lambda>w. gc_free_loop w p" and P = "\<lambda>e. ptr e = p",
            OF gc_free_loop_eq P d]
    by blast
  have run: "gc_free w p = Some w'"
    using w'(1) assms(2) registry_hd [OF assms(1)] by (simp add: gc_free_def)
  have reg: "registry w' (filter (\<lambda>a. \<not> base_is w p a) as)"
    using w'(2) d(2) by (simp add: registry_def base_is_def)
  have blk: "\<forall>b. blocks w' b =
                (if b = p \<and> (\<exists>a\<in>set as. base_is w p a) then None else blocks w b)"
  proof
    fix b
    have "(\<exists>a\<in>set as. \<exists>e. ents w a = Some e \<and> ptr e = p \<and> ptr e = b) =
          (b = p \<and> (\<exists>a\<in>set as. base_is w p a))"
      by (auto simp: base_is_def selected_def split: option.splits)
    then show "blocks w' b =
                (if b = p \<and> (\<exists>a\<in>set as. base_is w p a) then None else blocks w b)"
      using w'(5) by simp
  qed
  show ?thesis
    using run reg registry_hd [OF reg] w'(3,4,6,7) blk
    by (intro exI [of _ w']) (simp add: base_is_def)
qed


theorem gc_free_unlinks_every_match_witness:
  "registry (two_records 1) [200, 100] \<and> (12288::nat) \<noteq> 0 \<and>
   head_of (gc_free (two_records 1) 12288) = Some 100 \<and>
   record_at 200 (gc_free (two_records 1) 12288) = Some None \<and>
   block_at 12288 (gc_free (two_records 1) 12288) = Some None"
proof -
  have r: "registry (two_records 1) [200, 100]"
    by (simp add: registry_def two_records_def ex_state_def)
  have f: "filter (\<lambda>a. \<not> base_is (two_records 1) 12288 a) [200, 100] = [100]"
    by (simp add: base_is_def selected_def two_records_def)
  have b: "base_is (two_records 1) 12288 200"
    by (simp add: base_is_def selected_def two_records_def)
  obtain w' where w': "gc_free (two_records 1) 12288 = Some w'"
      "head (st w') = hd0 (filter (\<lambda>a. \<not> base_is (two_records 1) 12288 a) [200, 100])"
      "\<forall>a\<in>set [200, 100]. base_is (two_records 1) 12288 a \<longrightarrow> ents w' a = None"
      "\<forall>b. blocks w' b =
          (if b = 12288 \<and> (\<exists>a\<in>set [200, 100]. base_is (two_records 1) 12288 a) then None
           else blocks (two_records 1) b)"
    using gc_free_unlinks_every_match [OF r, of 12288] by auto
  have "blocks w' 12288 = None"
    using w'(4) b by auto
  then show ?thesis
    using r w'(1,2,3) f b by (simp add: head_of_def record_at_def block_at_def)
qed

section \<open>Failure of the underlying realloc\<close>

text \<open>
  Claim C9. Let the registry be well formed and let the record at \<open>a\<close> be the first one
  whose base is the non-null address \<open>p\<close>. When the underlying \<^verbatim>\<open>realloc\<close> fails,
  \<open>gc_realloc\<close> with a new size \<open>k > 0\<close> returns null and the only change to the world
  is that this record's base is now null: the record stays in the registry, which is
  still well formed, and keeps its old size.
\<close>

lemma gc_realloc_loop_find:
  assumes "dll (ents w) q x (xs @ a # ys)" and "\<forall>b\<in>set xs. \<not> base_is w p b"
    and "ents w a = Some e" and "ptr e = p"
  shows "gc_realloc_loop w p k r x =
           Some (r, (realloc_block w p k r)\<lparr>ents := (ents (realloc_block w p k r))(a \<mapsto> e\<lparr>ptr := r\<rparr>)\<rparr>)"
  using assms(1,2)
proof (induction xs arbitrary: q x)
  case Nil
  then have "x = a" "a \<noteq> 0" by auto
  then show ?case
    using assms(3,4) by (subst gc_realloc_loop.simps) (simp add: Let_def)
next
  case (Cons z xs)
  then obtain ez where ez: "x = z" "z \<noteq> 0" "ents w z = Some ez" "dll (ents w) z (next_e ez) (xs @ a # ys)"
    by (auto split: option.splits)
  have "ptr ez \<noteq> p"
    using Cons.prems(2) ez(3) by (simp add: base_is_def selected_def)
  moreover have "\<forall>b\<in>set xs. \<not> base_is w p b"
    using Cons.prems(2) by simp
  from Cons.IH [OF ez(4) this]
  have "gc_realloc_loop w p k r (next_e ez) =
           Some (r, (realloc_block w p k r)\<lparr>ents := (ents (realloc_block w p k r))(a \<mapsto> e\<lparr>ptr := r\<rparr>)\<rparr>)" .
  ultimately show ?case
    using ez by (subst gc_realloc_loop.simps) simp
qed


theorem gc_realloc_failure_nulls_base:
  assumes "registry w (xs @ a # ys)" and "\<forall>b\<in>set xs. \<not> base_is w p b"
    and "ents w a = Some e" and "ptr e = p" and "p \<noteq> 0" and "0 < k"
  shows "gc_realloc w p k 0 mp mq raw cpu heaps =
           Some (Returns (0, w\<lparr>ents := (ents w)(a \<mapsto> e\<lparr>ptr := 0\<rparr>)\<rparr>)) \<and>
         registry (w\<lparr>ents := (ents w)(a \<mapsto> e\<lparr>ptr := 0\<rparr>)\<rparr>) (xs @ a # ys) \<and>
         size_e (e\<lparr>ptr := 0\<rparr>) = size_e e"
proof -
  have d: "dll (ents w) 0 (head (st w)) (xs @ a # ys)" "distinct (xs @ a # ys)"
    using assms(1) by (simp_all add: registry_def)
  have run: "gc_realloc w p k 0 mp mq raw cpu heaps =
           Some (Returns (0, w\<lparr>ents := (ents w)(a \<mapsto> e\<lparr>ptr := 0\<rparr>)\<rparr>))"
    using gc_realloc_loop_find [OF d(1) assms(2,3,4), of k 0] assms(5,6)
    by (simp add: gc_realloc_def realloc_block_def)
  have "dll ((ents w)(a \<mapsto> e\<lparr>ptr := 0\<rparr>)) 0 (head (st w)) (xs @ a # ys) =
        dll (ents w) 0 (head (st w)) (xs @ a # ys)"
    using assms(3) by (intro dll_links) (simp add: entry_links_def)
  then have reg: "registry (w\<lparr>ents := (ents w)(a \<mapsto> e\<lparr>ptr := 0\<rparr>)\<rparr>) (xs @ a # ys)"
    using d by (simp add: registry_def)
  show ?thesis using run reg by simp
qed


theorem gc_realloc_failure_nulls_base_witness:
  "registry one_record ([] @ 100 # []) \<and>
   ents one_record 100 = Some \<lparr>ptr = 8192, size_e = 4, reachable = False, reach_addr = 0,
                                next_e = 0, prev_e = 0\<rparr> \<and>
   (8192::nat) \<noteq> 0 \<and> (0::nat) < 8 \<and>
   record_at 100 (world_of (returned (gc_realloc one_record 8192 8 0 0 0 raw0 zero_regs []))) =
     Some (Some \<lparr>ptr = 0, size_e = 4, reachable = False, reach_addr = 0,
                 next_e = 0, prev_e = 0\<rparr>) \<and>
   ptr_of (returned (gc_realloc one_record 8192 8 0 0 0 raw0 zero_regs [])) = Some 0"
proof -
  have r: "registry one_record ([] @ 100 # [])"
    by (simp add: registry_def one_record_def ex_state_def)
  have e: "ents one_record 100 = Some \<lparr>ptr = 8192, size_e = 4, reachable = False, reach_addr = 0,
                                next_e = 0, prev_e = 0\<rparr>"
    by (simp add: one_record_def)
  have n: "\<forall>b\<in>set []. \<not> base_is one_record 8192 b"
    by simp
  have "gc_realloc one_record 8192 8 0 0 0 raw0 zero_regs [] =
          Some (Returns (0, one_record\<lparr>ents := (ents one_record)(100 \<mapsto>
             \<lparr>ptr = 8192, size_e = 4, reachable = False, reach_addr = 0,
              next_e = 0, prev_e = 0\<rparr>\<lparr>ptr := 0\<rparr>)\<rparr>))"
    using gc_realloc_failure_nulls_base
            [OF r n e, where k = 8 and mp = 0 and mq = 0 and raw = raw0 and cpu = zero_regs
               and heaps = "[]"]
    by simp
  then show ?thesis
    using r e by (simp add: record_at_def world_of_def ptr_of_def returned_def)
qed


section \<open>Resetting and sweeping a well-formed registry\<close>

lemma scan_registers_eq:
  "scan_registers rs e = e\<lparr>reachable := reachable e \<or> ptr e \<in> set rs\<rparr>"
  by (induction rs arbitrary: e) auto

lemma reach_addr_reachable_swap:
  "e\<lparr>reach_addr := a, reachable := b\<rparr> = e\<lparr>reachable := b, reach_addr := a\<rparr>"
  by (cases e) simp

lemma gc_reset_loop_registry:
  assumes "dll (ents w) q x rs" and "distinct rs"
  shows "\<exists>w1. gc_reset_loop w x = Some w1 \<and> w1 = w\<lparr>ents := ents w1\<rparr> \<and>
           (\<forall>a. a \<notin> set rs \<longrightarrow> ents w1 a = ents w a) \<and>
           (\<forall>a\<in>set rs. \<exists>e. ents w a = Some e \<and>
              ents w1 a = Some (e\<lparr>reachable := ((flags (st w) AND GC_SCAN_REGISTERS) \<noteq> 0 \<and>
                                              ptr e \<in> set (regs_words (gp_registers w))),
                                 reach_addr := 0\<rparr>))"
  using assms
proof (induction rs arbitrary: w q x)
  case Nil
  then show ?case by (subst gc_reset_loop.simps) simp
next
  case (Cons y rs)
  then obtain e where e: "x = y" "y \<noteq> 0" "ents w y = Some e" "dll (ents w) y (next_e e) rs"
    by (auto split: option.splits)
  define e2 where "e2 = e\<lparr>reachable := ((flags (st w) AND GC_SCAN_REGISTERS) \<noteq> 0 \<and>
                                          ptr e \<in> set (regs_words (gp_registers w))),
                          reach_addr := 0\<rparr>"
  define w' where "w' = w\<lparr>ents := (ents w)(y \<mapsto> e2)\<rparr>"
  have yn: "y \<notin> set rs" "distinct rs" using Cons.prems(2) by auto
  have "dll (ents w') y (next_e e) rs = dll (ents w) y (next_e e) rs"
    using yn by (intro dll_links) (auto simp: w'_def)
  then have d': "dll (ents w') y (next_e e) rs" using e(4) by simp
  obtain w1 where w1: "gc_reset_loop w' (next_e e) = Some w1" "w1 = w'\<lparr>ents := ents w1\<rparr>"
      "\<forall>a. a \<notin> set rs \<longrightarrow> ents w1 a = ents w' a"
      "\<forall>a\<in>set rs. \<exists>e. ents w' a = Some e \<and>
              ents w1 a = Some (e\<lparr>reachable := ((flags (st w') AND GC_SCAN_REGISTERS) \<noteq> 0 \<and>
                                              ptr e \<in> set (regs_words (gp_registers w'))),
                                 reach_addr := 0\<rparr>)"
    using Cons.IH [OF d' yn(2)] by blast
  have step: "gc_reset_loop w x = gc_reset_loop w' (next_e e)"
    using e(1,2,3)
    by (subst gc_reset_loop.simps)
       (simp add: Let_def scan_registers_eq w'_def e2_def reach_addr_reachable_swap)
  have a1: "w1 = w\<lparr>ents := ents w1\<rparr>"
    using w1(2) by (simp add: w'_def)
  have a2: "\<forall>a. a \<notin> set (y # rs) \<longrightarrow> ents w1 a = ents w a"
    using w1(3) by (simp add: w'_def)
  have a3: "\<forall>a\<in>set (y # rs). \<exists>e. ents w a = Some e \<and>
              ents w1 a = Some (e\<lparr>reachable := ((flags (st w) AND GC_SCAN_REGISTERS) \<noteq> 0 \<and>
                                              ptr e \<in> set (regs_words (gp_registers w))),
                                 reach_addr := 0\<rparr>)"
  proof
    fix a assume "a \<in> set (y # rs)"
    then consider "a = y" | "a \<in> set rs" "a \<noteq> y" using yn by auto
    then show "\<exists>e. ents w a = Some e \<and>
              ents w1 a = Some (e\<lparr>reachable := ((flags (st w) AND GC_SCAN_REGISTERS) \<noteq> 0 \<and>
                                              ptr e \<in> set (regs_words (gp_registers w))),
                                 reach_addr := 0\<rparr>)"
    proof cases
      case 1
      then have "ents w1 a = Some e2" using w1(3) yn by (simp add: w'_def)
      then show ?thesis using 1 e(3) by (simp add: e2_def)
    next
      case 2
      then show ?thesis using w1(4) by (auto simp: w'_def)
    qed
  qed
  show ?case
    using step w1(1) a1 a2 a3 by (intro exI [of _ w1]) simp
qed

lemma selected_not_reachable:
  "dll (ents w) p x as \<Longrightarrow> a \<in> set as \<Longrightarrow>
   selected (\<lambda>e. reachable e = False) w a = (\<not> marked w a)"
  using dll_Some [of "ents w" p x as a] by (auto simp: selected_def marked_def)

lemma gc_sweep_registry:
  assumes "registry w as"
  shows "\<exists>w'. gc_sweep w = Some w' \<and> registry w' (filter (marked w) as) \<and>
           (\<forall>a\<in>set as. \<not> marked w a \<longrightarrow> ents w' a = None) \<and>
           (\<forall>a. \<not> (a \<in> set as \<and> \<not> marked w a) \<longrightarrow>
                map_option entry_data (ents w' a) = map_option entry_data (ents w a)) \<and>
           (\<forall>b. blocks w' b =
                (if \<exists>a\<in>set as. \<not> marked w a \<and> base_is w b a then None else blocks w b)) \<and>
           same_outside_registry w w'"
proof -
  have d: "dll (ents w) 0 (head (st w)) ([] @ as)" "distinct ([] @ as)"
    using assms by (simp_all add: registry_def)
  have P: "\<And>e e'. entry_data e = entry_data e' \<Longrightarrow> (reachable e = False) = (reachable e' = False)"
    by (simp add: entry_data_def)
  let ?S = "selected (\<lambda>e. reachable e = False) w"
  obtain w' where w': "gc_sweep_loop w (hd0 as) = Some w'"
      "dll (ents w') 0 (head (st w')) ([] @ filter (\<lambda>a. \<not> ?S a) as)"
      "\<forall>a\<in>set as. ?S a \<longrightarrow> ents w' a = None"
      "\<forall>a. \<not> (a \<in> set as \<and> ?S a) \<longrightarrow>
                map_option entry_data (ents w' a) = map_option entry_data (ents w a)"
      "\<forall>b. blocks w' b =
                (if \<exists>a\<in>set as. \<exists>e. ents w a = Some e \<and> reachable e = False \<and> ptr e = b then None
                 else blocks w b)"
      "same_outside_registry w w'"
    using unlink_loop_registry [where L = gc_sweep_loop and P = "\<lambda>e. reachable e = False",
            OF gc_sweep_loop_eq P d]
    by blast
  have S: "\<And>a. a \<in> set as \<Longrightarrow> ?S a = (\<not> marked w a)"
    using selected_not_reachable d(1) by simp
  have filt: "filter (\<lambda>a. \<not> ?S a) as = filter (marked w) as"
    using S by (intro filter_cong) auto
  have run: "gc_sweep w = Some w'"
    using w'(1) registry_hd [OF assms] by (simp add: gc_sweep_def)
  have reg: "registry w' (filter (marked w) as)"
    using w'(2) d(2) filt by (simp add: registry_def)
  have gone: "\<forall>a\<in>set as. \<not> marked w a \<longrightarrow> ents w' a = None"
    using w'(3) S by auto
  have kept: "\<forall>a. \<not> (a \<in> set as \<and> \<not> marked w a) \<longrightarrow>
                map_option entry_data (ents w' a) = map_option entry_data (ents w a)"
    using w'(4) S by auto
  have blk: "\<forall>b. blocks w' b =
                (if \<exists>a\<in>set as. \<not> marked w a \<and> base_is w b a then None else blocks w b)"
  proof
    fix b
    have "(\<exists>a\<in>set as. \<exists>e. ents w a = Some e \<and> reachable e = False \<and> ptr e = b) =
          (\<exists>a\<in>set as. \<not> marked w a \<and> base_is w b a)"
      by (auto simp: base_is_def marked_def selected_def split: option.splits)
    then show "blocks w' b =
                (if \<exists>a\<in>set as. \<not> marked w a \<and> base_is w b a then None else blocks w b)"
      using w'(5) by simp
  qed
  show ?thesis
    using run reg gone kept blk w'(6) by (intro exI [of _ w']) simp
qed

section \<open>Total correctness of marking\<close>

lemma entry_rel_refl: "entry_rel vs r r"
  by (cases r) (auto simp: entry_rel_def)

lemma entry_rel_trans:
  assumes r01: "entry_rel vs r r1" and r12: "entry_rel vs' r1 r2"
  shows "entry_rel (vs @ vs') r r2"
proof (cases r)
  case None
  then show ?thesis using r01 r12 by (simp add: entry_rel_def)
next
  case (Some e)
  then obtain e1 where e1: "r1 = Some e1" "ptr e1 = ptr e" "size_e e1 = size_e e"
      "next_e e1 = next_e e" "prev_e e1 = prev_e e" "reachable e \<longrightarrow> e1 = e"
      "reachable e1 \<and> \<not> reachable e \<longrightarrow> ptr e \<in> set vs"
    using r01 by (auto simp: entry_rel_def)
  then obtain e2 where e2: "r2 = Some e2" "ptr e2 = ptr e1" "size_e e2 = size_e e1"
      "next_e e2 = next_e e1" "prev_e e2 = prev_e e1" "reachable e1 \<longrightarrow> e2 = e1"
      "reachable e2 \<and> \<not> reachable e1 \<longrightarrow> ptr e1 \<in> set vs'"
    using r12 by (auto simp: entry_rel_def)
  have a: "reachable e \<longrightarrow> e2 = e" using e1(6) e2(6) by auto
  have b: "reachable e2 \<and> \<not> reachable e \<longrightarrow> ptr e \<in> set (vs @ vs')"
  proof (cases "reachable e1")
    case True
    then show ?thesis using e1(7) by auto
  next
    case False
    then show ?thesis using e2(7) e1(2) by auto
  qed
  show ?thesis
    using Some e1(2-5) e2(1-5) a b by (simp add: entry_rel_def)
qed

lemma mark_rel_refl: "mark_rel w w"
  unfolding mark_rel_def by (auto intro: exI [of _ "[]"] simp: entry_rel_refl)

lemma mark_rel_trans:
  assumes "mark_rel w w1" and "mark_rel w1 w2"
  shows "mark_rel w w2"
proof -
  obtain evs vs where 1: "reads w1 = reads w @ evs" "seen w1 = seen w @ vs"
      "\<forall>a. entry_rel vs (ents w a) (ents w1 a)"
    using assms(1) unfolding mark_rel_def by blast
  obtain evs' vs' where 2: "reads w2 = reads w1 @ evs'" "seen w2 = seen w1 @ vs'"
      "\<forall>a. entry_rel vs' (ents w1 a) (ents w2 a)"
    using assms(2) unfolding mark_rel_def by blast
  have "\<forall>a. entry_rel (vs @ vs') (ents w a) (ents w2 a)"
    using 1(3) 2(3) entry_rel_trans by metis
  moreover have "seen w2 = seen w @ (vs @ vs')" using 1(2) 2(2) by simp
  ultimately have s: "\<exists>vs. seen w2 = seen w @ vs \<and> (\<forall>a. entry_rel vs (ents w a) (ents w2 a))"
    by blast
  have "reads w2 = reads w @ (evs @ evs')" using 1(1) 2(1) by simp
  then have r: "\<exists>evs. reads w2 = reads w @ evs" by blast
  show ?thesis
    using assms r s unfolding mark_rel_def by simp
qed

lemma mark_rel_read:
  "mark_rel w (w\<lparr>reads := reads w @ [ev], seen := seen w @ [v]\<rparr>)"
  unfolding mark_rel_def
  by (auto intro!: exI [of _ "[ev]"] exI [of _ "[v]"] simp: entry_rel_refl)

lemma mark_rel_hit:
  assumes "ents w x = Some en" and "\<not> reachable en" and "ptr en = v"
  shows "mark_rel w (w\<lparr>reads := reads w @ [ev], seen := seen w @ [v],
                       ents := (ents w)(x \<mapsto> en\<lparr>reachable := True, reach_addr := ra\<rparr>)\<rparr>)"
proof -
  have "entry_rel [v] (ents w a)
          (((ents w)(x \<mapsto> en\<lparr>reachable := True, reach_addr := ra\<rparr>)) a)" for a
  proof (cases "a = x")
    case True
    then show ?thesis using assms by (simp add: entry_rel_def)
  next
    case False
    then show ?thesis by (simp add: entry_rel_refl)
  qed
  then show ?thesis
    unfolding mark_rel_def
    by (auto intro!: exI [of _ "[ev]"] exI [of _ "[v]"])
qed

lemma mark_rel_entry:
  assumes "mark_rel w w'" and "ents w a = Some e"
  shows "\<exists>e'. ents w' a = Some e' \<and> ptr e' = ptr e \<and> size_e e' = size_e e \<and>
              next_e e' = next_e e \<and> prev_e e' = prev_e e \<and> (reachable e \<longrightarrow> e' = e)"
proof -
  obtain vs where "entry_rel vs (ents w a) (ents w' a)"
    using assms(1) unfolding mark_rel_def by blast
  then show ?thesis using assms(2) by (auto simp: entry_rel_def)
qed

lemma mark_rel_None:
  assumes "mark_rel w w'" and "ents w a = None"
  shows "ents w' a = None"
proof -
  obtain vs where "entry_rel vs (ents w a) (ents w' a)"
    using assms(1) unfolding mark_rel_def by blast
  then show ?thesis using assms(2) by (simp add: entry_rel_def)
qed

lemma mark_rel_links:
  assumes "mark_rel w w'"
  shows "map_option entry_links (ents w' a) = map_option entry_links (ents w a)"
proof (cases "ents w a")
  case None
  then show ?thesis using mark_rel_None [OF assms] by simp
next
  case (Some e)
  then show ?thesis using mark_rel_entry [OF assms Some] by (auto simp: entry_links_def)
qed

lemma mark_rel_dll:
  "mark_rel w w' \<Longrightarrow> dll (ents w') p a as = dll (ents w) p a as"
  by (intro dll_links mark_rel_links)

lemma mark_rel_registry:
  "mark_rel w w' \<Longrightarrow> registry w' as = registry w as"
  using mark_rel_dll [of w w' 0 "head (st w)" as] by (simp add: registry_def mark_rel_def)

lemma mark_rel_marked:
  assumes "mark_rel w w'" and "marked w a"
  shows "marked w' a"
proof -
  obtain e where e: "ents w a = Some e" "reachable e"
    using assms(2) by (auto simp: marked_def selected_def split: option.splits)
  then show ?thesis
    using mark_rel_entry [OF assms(1) e(1)] by (auto simp: marked_def selected_def)
qed

lemma mark_rel_new_seen:
  assumes "mark_rel w w'"
  shows "seen w' = seen w @ new_seen w w'"
    and "\<forall>a. entry_rel (new_seen w w') (ents w a) (ents w' a)"
proof -
  obtain vs where vs: "seen w' = seen w @ vs" "\<forall>a. entry_rel vs (ents w a) (ents w' a)"
    using assms unfolding mark_rel_def by blast
  have "new_seen w w' = vs" using vs(1) by (simp add: new_seen_def)
  then show "seen w' = seen w @ new_seen w w'"
    and "\<forall>a. entry_rel (new_seen w w') (ents w a) (ents w' a)"
    using vs by simp_all
qed

lemma mark_rel_unmarked:
  assumes "mark_rel w w'" and "ents w a = Some e" and "\<not> reachable e"
    and "ptr e \<notin> set (new_seen w w')"
  shows "\<exists>e'. ents w' a = Some e' \<and> ptr e' = ptr e \<and> \<not> reachable e'"
proof -
  have "entry_rel (new_seen w w') (ents w a) (ents w' a)"
    using mark_rel_new_seen(2) [OF assms(1)] by simp
  then show ?thesis
    using assms(2,3,4) by (auto simp: entry_rel_def)
qed

lemma filter_count_mono:
  "(\<And>x. x \<in> set xs \<Longrightarrow> P x \<Longrightarrow> Q x) \<Longrightarrow> length (filter P xs) \<le> length (filter Q xs)"
  by (induction xs) auto

lemma filter_count_less:
  "(\<And>x. x \<in> set xs \<Longrightarrow> P x \<Longrightarrow> Q x) \<Longrightarrow> y \<in> set xs \<Longrightarrow> Q y \<Longrightarrow> \<not> P y \<Longrightarrow>
   length (filter P xs) < length (filter Q xs)"
proof (induction xs)
  case Nil
  then show ?case by simp
next
  case (Cons x xs)
  have le: "length (filter P xs) \<le> length (filter Q xs)"
    using Cons.prems(1) by (intro filter_count_mono) auto
  show ?case
  proof (cases "y = x")
    case True
    then show ?thesis using le Cons.prems(3,4) by simp
  next
    case False
    then have "length (filter P xs) < length (filter Q xs)"
      using Cons by auto
    then show ?thesis using Cons.prems(1) [of x] by auto
  qed
qed

lemma unmarked_mono:
  "mark_rel w w' \<Longrightarrow> unmarked w' as \<le> unmarked w as"
  unfolding unmarked_def by (intro filter_count_mono) (auto dest: mark_rel_marked)

lemma unmarked_less:
  "mark_rel w w' \<Longrightarrow> x \<in> set as \<Longrightarrow> \<not> marked w x \<Longrightarrow> marked w' x \<Longrightarrow>
   unmarked w' as < unmarked w as"
  unfolding unmarked_def by (rule filter_count_less [where y = x]) (auto dest: mark_rel_marked)

text \<open>What a successful read tells about its address.\<close>

lemma user_top_less: "user_top + 100 < addr_space"
  by (simp add: user_top_def addr_space_def)

lemma read_word_Some: "read_word w a = Some v \<Longrightarrow> a + 8 \<le> user_top"
  by (auto simp: read_word_def readable_8 split: if_splits)

lemma gc_memcmp_True:
  assumes "gc_memcmp w a b n = Some True" and "0 < n"
  shows "a < user_top"
proof -
  have "read_byte w a \<noteq> None"
    using assms unfolding gc_memcmp_def
    by (subst (asm) gc_memcmp_from.simps) (auto split: option.splits)
  then show ?thesis by (auto simp: read_byte_def split: if_splits)
qed

lemma ptr_add_small: "a < user_top \<Longrightarrow> n \<le> 100 \<Longrightarrow> ptr_add a n = a + n"
  using user_top_less by (simp add: ptr_add_def)

lemma self_skip_Some:
  assumes "self_skip w c start = Some s1"
  shows "s1 = start \<or> start < user_top \<and> (s1 = start + 87 \<or> s1 = start + 63)"
proof (cases c)
  case False
  then show ?thesis using assms by (simp add: self_skip_def)
next
  case True
  show ?thesis
  proof (cases "gc_memcmp w start GC_TAG_STATE sizeof_tag")
    case None
    then show ?thesis using assms True by (simp add: self_skip_def)
  next
    case (Some t)
    show ?thesis
    proof (cases t)
      case True
      have "start < user_top"
        using gc_memcmp_True [of w start GC_TAG_STATE sizeof_tag] Some True
        by (simp add: sizeof_tag_def)
      then show ?thesis
        using assms \<open>c\<close> Some True
        by (simp add: self_skip_def ptr_add_small sizeof_gc_state_def)
    next
      case False
      note nostate = this
      show ?thesis
      proof (cases "gc_memcmp w start GC_TAG_ENTRY sizeof_tag")
        case None
        then show ?thesis using assms \<open>c\<close> Some nostate by (simp add: self_skip_def)
      next
        case (Some u)
        show ?thesis
        proof (cases u)
          case True
          have "start < user_top"
            using gc_memcmp_True [of w start GC_TAG_ENTRY sizeof_tag] Some True
            by (simp add: sizeof_tag_def)
          then show ?thesis
            using assms \<open>c\<close> \<open>gc_memcmp w start GC_TAG_STATE sizeof_tag = Some t\<close> nostate Some True
            by (simp add: self_skip_def ptr_add_small sizeof_gc_entry_def)
        next
          case False
          then show ?thesis
            using assms \<open>c\<close> \<open>gc_memcmp w start GC_TAG_STATE sizeof_tag = Some t\<close> nostate Some
            by (simp add: self_skip_def)
        qed
      qed
    qed
  qed
qed

lemma self_skip_bounds:
  assumes "self_skip w c start = Some s1" and "start < addr_space"
  shows "start \<le> s1" and "s1 < addr_space"
  using self_skip_Some [OF assms(1)] assms(2) user_top_less by auto

text \<open>The steps of \<open>gc_mark_at\<close> at the program point \<open>Inner\<close>.\<close>

lemma mark_Inner_null:
  "gc_mark_at (Inner 0) w s0 e0 start end c = gc_mark_at Outer w s0 e0 (ptr_add start 8) end c"
  by (subst gc_mark_at.simps) (simp add: sizeof_ptr_def)

lemma mark_Inner_skip_fault:
  assumes "x \<noteq> 0" and "self_skip w c start = None"
  shows "gc_mark_at (Inner x) w s0 e0 start end c = Some (Faults w)"
  using assms by (subst gc_mark_at.simps) simp

lemma mark_Inner_read_fault:
  assumes "x \<noteq> 0" and "self_skip w c start = Some s1" and "ents w x = Some en"
    and "read_word w s1 = None"
  shows "gc_mark_at (Inner x) w s0 e0 start end c = Some (Faults w)"
  using assms by (subst gc_mark_at.simps) simp

lemma mark_Inner_hit:
  assumes "x \<noteq> 0" and "self_skip w c start = Some s1" and "ents w x = Some en"
    and "read_word w s1 = Some v" and "ptr en = v" and "\<not> reachable en"
  shows "gc_mark_at (Inner x) w s0 e0 start end c =
     do {
       r \<leftarrow> gc_mark_at Enter
               (w\<lparr>reads := reads w @ [(c, s0, e0, s1)], seen := seen w @ [v],
                  ents := (ents w)(x \<mapsto> en\<lparr>reachable := True, reach_addr := s1\<rparr>)\<rparr>)
               (ptr en) (ptr_add (ptr en) (size_e en)) (ptr en) (ptr_add (ptr en) (size_e en)) True;
       case r of
         Faults w4 \<Rightarrow> Some (Faults w4)
       | Returns w3 \<Rightarrow>
           (case ents w3 x of
              None \<Rightarrow> None
            | Some en3 \<Rightarrow> gc_mark_at (Inner (next_e en3)) w3 s0 e0 s1 end c)
     }"
  using assms by (subst gc_mark_at.simps) (simp add: Let_def)

lemma mark_Inner_miss:
  assumes "x \<noteq> 0" and "self_skip w c start = Some s1" and "ents w x = Some en"
    and "read_word w s1 = Some v" and "\<not> (ptr en = v \<and> \<not> reachable en)"
  shows "gc_mark_at (Inner x) w s0 e0 start end c =
     gc_mark_at (Inner (next_e en))
       (w\<lparr>reads := reads w @ [(c, s0, e0, s1)], seen := seen w @ [v]\<rparr>) s0 e0 s1 end c"
  using assms by (subst gc_mark_at.simps) (auto simp: Let_def)

text \<open>The measure.\<close>

lemma wf_mark_order: "wf (mark_order as)"
  unfolding mark_order_def by (intro wf_inv_image wf_lex_prod wf_less_than)

lemma mark_order_iff:
  "((pc', w', s'), (pc, w, s)) \<in> mark_order as \<longleftrightarrow>
     (let (a', b', c') = mark_size as (pc', w', s'); (a, b, c) = mark_size as (pc, w, s)
      in a' < a \<or> a' = a \<and> (b' < b \<or> b' = b \<and> c' < c))"
  unfolding mark_order_def by (auto simp: Let_def split: prod.splits)

lemma suffix_length:
  assumes "distinct (ps @ x # rs)"
  shows "length (dropWhile (\<lambda>a. a \<noteq> x) (ps @ x # rs)) = Suc (length rs)"
proof -
  have "\<And>a. a \<in> set ps \<Longrightarrow> a \<noteq> x"
    using assms by auto
  then have "dropWhile (\<lambda>a. a \<noteq> x) (ps @ x # rs) = x # rs"
    by (simp add: dropWhile_append3)
  then show ?thesis by simp
qed

lemma suffix_length_next:
  assumes "distinct (ps @ x # rs)" and "0 \<notin> set (ps @ x # rs)"
  shows "length (dropWhile (\<lambda>a. a \<noteq> hd0 rs) (ps @ x # rs)) = length rs"
proof (cases rs)
  case Nil
  have "a \<noteq> 0" if "a \<in> set (ps @ [x])" for a
  proof -
    from that have "a \<in> set (ps @ x # rs)" by auto
    with assms(2) show ?thesis by metis
  qed
  then have "dropWhile (\<lambda>a. a \<noteq> 0) (ps @ [x]) = []"
    unfolding dropWhile_eq_Nil_conv by blast
  then show ?thesis using Nil by simp
next
  case (Cons y rs')
  have "distinct ((ps @ [x]) @ y # rs')" using assms(1) Cons by simp
  from suffix_length [OF this] show ?thesis using Cons by simp
qed

lemma order_nested:
  "unmarked w' as < unmarked w as \<Longrightarrow> ((pc', w', s'), (pc, w, s)) \<in> mark_order as"
  by (simp add: mark_order_iff mark_size_def)

lemma order_Enter_Outer:
  "((Outer, w, s), (Enter, w, s)) \<in> mark_order as"
  by (auto simp: mark_order_iff mark_size_def)

lemma order_Outer_Inner:
  "s < addr_space \<Longrightarrow> ((Inner x, w, s), (Outer, w, s)) \<in> mark_order as"
  by (auto simp: mark_order_iff mark_size_def)

lemma order_Inner_Outer:
  "s < addr_space \<Longrightarrow> ((Outer, w, s + 8), (Inner x, w, s)) \<in> mark_order as"
  by (auto simp: mark_order_iff mark_size_def)

lemma order_Inner_next:
  assumes "unmarked w' (ps @ x # rs) \<le> unmarked w (ps @ x # rs)" and "s \<le> s'"
    and "distinct (ps @ x # rs)" and "0 \<notin> set (ps @ x # rs)"
  shows "((Inner (hd0 rs), w', s'), (Inner x, w, s)) \<in> mark_order (ps @ x # rs)"
  using assms(1,2) suffix_length [OF assms(3)] suffix_length_next [OF assms(3,4)]
  by (auto simp: mark_order_iff mark_size_def)

text \<open>
  On a well-formed, non-empty registry every run of the mark engine comes to an end,
  from every program point: each recursive call marks a record that was unmarked, each
  turn of the inner loop moves to the next record, and each turn of the outer loop
  moves the cursor up, which in the inner loop has read a word and so lies in user
  space.
\<close>

lemma gc_mark_at_total:
  assumes dist: "distinct as" and ne: "as \<noteq> []"
  shows "dll (ents w) 0 (head (st w)) as \<Longrightarrow> mark_pre as pc start end \<Longrightarrow>
         mark_run w (gc_mark_at pc w s0 e0 start end c)"
proof -
  define P where "P cfg \<longleftrightarrow>
      (case cfg of (pc, w, start) \<Rightarrow>
         \<forall>s0 e0 end c. dll (ents w) 0 (head (st w)) as \<longrightarrow> mark_pre as pc start end \<longrightarrow>
                mark_run w (gc_mark_at pc w s0 e0 start end c))" for cfg
  have "P cfg" for cfg
  proof (rule wf_induct_rule [OF wf_mark_order [of as]])
    fix cfg :: "mark_pc \<times> world \<times> addr"
    assume IH: "\<And>y. (y, cfg) \<in> mark_order as \<Longrightarrow> P y"
    obtain pc w start where cfg: "cfg = (pc, w, start)"
      by (cases cfg) auto
    have ih: "mark_run w' (gc_mark_at pc' w' s0' e0' s' e' c')"
      if "((pc', w', s'), (pc, w, start)) \<in> mark_order as"
        and "dll (ents w') 0 (head (st w')) as" and "mark_pre as pc' s' e'"
      for pc' w' s0' e0' s' e' c'
      using IH [of "(pc', w', s')"] that unfolding P_def cfg by simp
    have "mark_run w (gc_mark_at pc w s0 e0 start end c)"
      if d: "dll (ents w) 0 (head (st w)) as" and pre: "mark_pre as pc start end"
      for s0 e0 "end" c
    proof (cases pc)
      case Enter
      have "ptr_sub end 8 < addr_space"
        by (simp add: ptr_sub_def addr_space_def)
      then have "mark_pre as Outer start (ptr_sub end 8)"
        by (simp add: mark_pre_def)
      from ih [OF _ d this] order_Enter_Outer Enter
      have "mark_run w (gc_mark_at Outer w s0 e0 start (ptr_sub end 8) c)"
        by blast
      then show ?thesis
        using Enter by (simp add: mark_Enter sizeof_ptr_def)
    next
      case Outer
      have eb: "end < addr_space" using pre Outer by (simp add: mark_pre_def)
      show ?thesis
      proof (cases "start \<le> end")
        case True
        have hd: "head (st w) = hd0 as" using d by (rule dll_hd)
        have "head (st w) = 0 \<or> head (st w) \<in> set as"
          using hd by (cases as) auto
        then have p: "mark_pre as (Inner (head (st w))) start end"
          using eb True hd by (simp add: mark_pre_def)
        have "start < addr_space" using True eb by simp
        from ih [OF _ d p] order_Outer_Inner [OF this] Outer
        have "mark_run w (gc_mark_at (Inner (head (st w))) w s0 e0 start end c)"
          by blast
        then show ?thesis using Outer True by (simp add: mark_Outer)
      next
        case False
        then show ?thesis
          using Outer by (simp add: mark_Outer mark_run_def final_def mark_rel_refl)
      qed
    next
      case (Inner x)
      have eb: "end < addr_space" and px: "x = 0 \<or> x \<in> set as"
        and pos: "start + 8 \<le> user_top \<or> x = hd0 as \<and> start \<le> end"
        using pre Inner by (simp_all add: mark_pre_def)
      have nz: "0 \<notin> set as" using d by (rule dll_nonzero)
      have hdin: "hd0 as \<in> set as" using ne by (cases as) auto
      have sb: "start < addr_space"
        using pos eb user_top_less by auto
      show ?thesis
      proof (cases "x = 0")
        case True
        have "hd0 as \<noteq> 0" using hdin nz by metis
        then have s8: "start + 8 \<le> user_top" using pos True by simp
        then have pa: "ptr_add start 8 = start + 8"
          by (simp add: ptr_add_small)
        have "mark_pre as Outer (start + 8) end"
          using eb by (simp add: mark_pre_def)
        from ih [OF _ d this] order_Inner_Outer [OF sb] Inner
        have "mark_run w (gc_mark_at Outer w s0 e0 (start + 8) end c)"
          by blast
        then show ?thesis using Inner True pa by (simp add: mark_Inner_null)
      next
        case False
        then have xin: "x \<in> set as" using px by simp
        then obtain ps rs where as: "as = ps @ x # rs"
          by (auto simp: in_set_conv_decomp)
        obtain en where en: "ents w x = Some en" "next_e en = hd0 rs"
          using dll_split [of "ents w" 0 "head (st w)" ps x rs] d as by auto
        have nxt: "hd0 rs = 0 \<or> hd0 rs \<in> set as"
          using as by (cases rs) auto
        show ?thesis
        proof (cases "self_skip w c start")
          case None
          then show ?thesis
            using Inner False
            by (simp add: mark_Inner_skip_fault mark_run_def final_def mark_rel_refl)
        next
          case (Some s1)
          have s1: "start \<le> s1" "s1 < addr_space"
            using self_skip_bounds [OF Some sb] by simp_all
          show ?thesis
          proof (cases "read_word w s1")
            case None
            then show ?thesis
              using Inner False Some en(1)
              by (simp add: mark_Inner_read_fault mark_run_def final_def mark_rel_refl)
          next
            case rd: (Some v)
            have s18: "s1 + 8 \<le> user_top" using rd by (rule read_word_Some)
            have pn: "mark_pre as (Inner (hd0 rs)) s1 end"
              using eb nxt s18 by (simp add: mark_pre_def)
            show ?thesis
            proof (cases "ptr en = v \<and> \<not> reachable en")
              case True
              define w2 where "w2 = w\<lparr>reads := reads w @ [(c, s0, e0, s1)], seen := seen w @ [v],
                  ents := (ents w)(x \<mapsto> en\<lparr>reachable := True, reach_addr := s1\<rparr>)\<rparr>"
              have r2: "mark_rel w w2"
                unfolding w2_def using en(1) True by (intro mark_rel_hit) simp_all
              have d2: "dll (ents w2) 0 (head (st w2)) as"
                using d mark_rel_dll [OF r2] r2 by (simp add: mark_rel_def)
              have "\<not> marked w x" using en(1) True by (simp add: marked_def selected_def)
              moreover have "marked w2 x" by (simp add: w2_def marked_def selected_def)
              ultimately have less: "unmarked w2 as < unmarked w as"
                using unmarked_less [OF r2 xin] by simp
              have "mark_pre as Enter (ptr en) (ptr_add (ptr en) (size_e en))"
                by (simp add: mark_pre_def)
              from ih [OF order_nested [OF less] d2 this]
              obtain out3 where out3: "gc_mark_at Enter w2 (ptr en) (ptr_add (ptr en) (size_e en))
                    (ptr en) (ptr_add (ptr en) (size_e en)) True = Some out3"
                  "mark_rel w2 (final out3)"
                unfolding mark_run_def by blast
              have r3: "mark_rel w (final out3)" using mark_rel_trans [OF r2 out3(2)] .
              have step: "gc_mark_at (Inner x) w s0 e0 start end c =
                  (case out3 of
                     Faults w4 \<Rightarrow> Some (Faults w4)
                   | Returns w3 \<Rightarrow>
                       (case ents w3 x of
                          None \<Rightarrow> None
                        | Some en3 \<Rightarrow> gc_mark_at (Inner (next_e en3)) w3 s0 e0 s1 end c))"
                using mark_Inner_hit [OF False Some en(1) rd, of s0 e0 "end"] True out3(1)
                by (simp add: w2_def)
              show ?thesis
              proof (cases out3)
                case (Faults w4)
                then show ?thesis
                  using Inner step r3 by (simp add: mark_run_def final_def)
              next
                case (Returns w3)
                have r3': "mark_rel w w3" using r3 Returns by (simp add: final_def)
                have r23: "mark_rel w2 w3" using out3(2) Returns by (simp add: final_def)
                have d3: "dll (ents w3) 0 (head (st w3)) as"
                  using d mark_rel_dll [OF r3'] r3' by (simp add: mark_rel_def)
                obtain en3 where en3: "ents w3 x = Some en3" "next_e en3 = next_e en"
                  using mark_rel_entry [OF r3' en(1)] by auto
                have less3: "unmarked w3 as < unmarked w as"
                  using unmarked_mono [OF r23, of as] less by simp
                from ih [OF order_nested [OF less3] d3 pn]
                obtain out where out: "gc_mark_at (Inner (hd0 rs)) w3 s0 e0 s1 end c = Some out"
                    "mark_rel w3 (final out)"
                  unfolding mark_run_def by blast
                have "gc_mark_at (Inner x) w s0 e0 start end c = Some out"
                  using step Returns en3 en(2) out(1) by simp
                then show ?thesis
                  using Inner mark_rel_trans [OF r3' out(2)] by (simp add: mark_run_def)
              qed
            next
              case miss: False
              define w1 where "w1 = w\<lparr>reads := reads w @ [(c, s0, e0, s1)], seen := seen w @ [v]\<rparr>"
              have r1: "mark_rel w w1"
                unfolding w1_def by (rule mark_rel_read)
              have d1: "dll (ents w1) 0 (head (st w1)) as" using d by (simp add: w1_def)
              have le: "unmarked w1 (ps @ x # rs) \<le> unmarked w (ps @ x # rs)"
                using unmarked_mono [OF r1] .
              have ord: "((Inner (hd0 rs), w1, s1), (Inner x, w, start)) \<in> mark_order as"
                unfolding as using le s1(1) dist nz unfolding as by (rule order_Inner_next)
              from ih [OF _ d1 pn] ord Inner
              obtain out where out: "gc_mark_at (Inner (hd0 rs)) w1 s0 e0 s1 end c = Some out"
                  "mark_rel w1 (final out)"
                unfolding mark_run_def by blast
              have "gc_mark_at (Inner x) w s0 e0 start end c = Some out"
                using mark_Inner_miss [OF False Some en(1) rd miss, of s0 e0 "end"] en(2) out(1)
                by (simp add: w1_def)
              then show ?thesis
                using Inner mark_rel_trans [OF r1 out(2)] by (simp add: mark_run_def)
            qed
          qed
        qed
      qed
    qed
    then show "P cfg" unfolding P_def cfg by simp
  qed
  then show "dll (ents w) 0 (head (st w)) as \<Longrightarrow> mark_pre as pc start end \<Longrightarrow>
         mark_run w (gc_mark_at pc w s0 e0 start end c)"
    unfolding P_def by (auto dest!: spec [of _ "(pc, w, start)"])
qed

lemma gc_mark_total:
  assumes "registry w as" and "as \<noteq> []"
  shows "mark_run w (gc_mark w start end c)"
proof -
  have d: "dll (ents w) 0 (head (st w)) as" "distinct as"
    using assms(1) by (simp_all add: registry_def)
  have "mark_pre as Enter start end"
    by (simp add: mark_pre_def)
  from gc_mark_at_total [OF d(2) assms(2) d(1) this]
  show ?thesis by (simp add: gc_mark_def)
qed

lemma mark_run_return: "mark_run w (Some (Returns w))"
  by (simp add: mark_run_def final_def mark_rel_refl)

lemma mark_run_and_then:
  assumes "mark_run w r" and "\<And>w1. mark_rel w w1 \<Longrightarrow> mark_run w1 (f w1)"
  shows "mark_run w (and_then r f)"
proof -
  obtain out where out: "r = Some out" "mark_rel w (final out)"
    using assms(1) unfolding mark_run_def by blast
  show ?thesis
  proof (cases out)
    case (Faults w4)
    then show ?thesis using out by (simp add: mark_run_def and_then_def)
  next
    case (Returns w1)
    then have r1: "mark_rel w w1" using out(2) by (simp add: final_def)
    obtain out' where out': "f w1 = Some out'" "mark_rel w1 (final out')"
      using assms(2) [OF r1] unfolding mark_run_def by blast
    show ?thesis
      using out(1) Returns out'(1) mark_rel_trans [OF r1 out'(2)]
      by (simp add: mark_run_def and_then_def)
  qed
qed

lemma gc_mark_heaps_total:
  assumes "registry w as" and "as \<noteq> []"
  shows "mark_run w (gc_mark_heaps w heaps)"
  using assms(1)
proof (induction heaps arbitrary: w)
  case Nil
  then show ?case by (simp add: mark_run_return)
next
  case (Cons h hs)
  have 1: "mark_run w (gc_mark w (region_start h) (region_end h) True)"
    using gc_mark_total [OF Cons.prems assms(2)] .
  have 2: "mark_run w1 (gc_mark_heaps w1 hs)" if "mark_rel w w1" for w1
    using Cons.IH [of w1] mark_rel_registry [OF that] Cons.prems by simp
  show ?case
    using mark_run_and_then [OF 1 2] by simp
qed

lemma gc_mark_if_total:
  assumes "registry w as" and "as \<noteq> []"
  shows "mark_run w (if b then gc_mark w start end c else Some (Returns w))"
  using gc_mark_total [OF assms] by (cases b) (simp_all add: mark_run_return)

lemma mark_phase_total:
  assumes "registry w as" and "as \<noteq> []"
  shows "mark_run w
    (and_then (if (flags (st w) AND GC_SCAN_STACK) \<noteq> 0
               then gc_mark w (gc_current_stack_top w) (stack_start (st w)) False
               else Some (Returns w))
       (\<lambda>w2.
     and_then (if (flags (st w2) AND GC_SCAN_DATA_SECTION) \<noteq> 0
               then gc_mark w2 (region_start (data (st w2))) (region_end (data (st w2))) False
               else Some (Returns w2))
       (\<lambda>w3.
     and_then (if (flags (st w3) AND GC_SCAN_BSS_SECTION) \<noteq> 0
               then gc_mark w3 (region_start (bss (st w3))) (region_end (bss (st w3))) False
               else Some (Returns w3))
       (\<lambda>w4. if (flags (st w4) AND GC_SCAN_HEAPS) \<noteq> 0
              then gc_mark_heaps w4 heaps
              else Some (Returns w4)))))"
proof (rule mark_run_and_then)
  show "mark_run w (if (flags (st w) AND GC_SCAN_STACK) \<noteq> 0
               then gc_mark w (gc_current_stack_top w) (stack_start (st w)) False
               else Some (Returns w))"
    using assms by (rule gc_mark_if_total)
next
  fix w2 assume "mark_rel w w2"
  then have g2: "registry w2 as" using mark_rel_registry assms(1) by simp
  show "mark_run w2
     (and_then (if (flags (st w2) AND GC_SCAN_DATA_SECTION) \<noteq> 0
               then gc_mark w2 (region_start (data (st w2))) (region_end (data (st w2))) False
               else Some (Returns w2))
       (\<lambda>w3.
     and_then (if (flags (st w3) AND GC_SCAN_BSS_SECTION) \<noteq> 0
               then gc_mark w3 (region_start (bss (st w3))) (region_end (bss (st w3))) False
               else Some (Returns w3))
       (\<lambda>w4. if (flags (st w4) AND GC_SCAN_HEAPS) \<noteq> 0
              then gc_mark_heaps w4 heaps
              else Some (Returns w4))))"
  proof (rule mark_run_and_then)
    show "mark_run w2 (if (flags (st w2) AND GC_SCAN_DATA_SECTION) \<noteq> 0
               then gc_mark w2 (region_start (data (st w2))) (region_end (data (st w2))) False
               else Some (Returns w2))"
      using g2 assms(2) by (rule gc_mark_if_total)
  next
    fix w3 assume "mark_rel w2 w3"
    then have g3: "registry w3 as" using mark_rel_registry g2 by simp
    show "mark_run w3
       (and_then (if (flags (st w3) AND GC_SCAN_BSS_SECTION) \<noteq> 0
               then gc_mark w3 (region_start (bss (st w3))) (region_end (bss (st w3))) False
               else Some (Returns w3))
       (\<lambda>w4. if (flags (st w4) AND GC_SCAN_HEAPS) \<noteq> 0
              then gc_mark_heaps w4 heaps
              else Some (Returns w4)))"
    proof (rule mark_run_and_then)
      show "mark_run w3 (if (flags (st w3) AND GC_SCAN_BSS_SECTION) \<noteq> 0
               then gc_mark w3 (region_start (bss (st w3))) (region_end (bss (st w3))) False
               else Some (Returns w3))"
        using g3 assms(2) by (rule gc_mark_if_total)
    next
      fix w4 assume "mark_rel w3 w4"
      then have g4: "registry w4 as" using mark_rel_registry g3 by simp
      show "mark_run w4 (if (flags (st w4) AND GC_SCAN_HEAPS) \<noteq> 0
              then gc_mark_heaps w4 heaps
              else Some (Returns w4))"
        using gc_mark_heaps_total [OF g4 assms(2)]
        by (cases "(flags (st w4) AND GC_SCAN_HEAPS) \<noteq> 0") (simp_all add: mark_run_return)
    qed
  qed
qed

lemma and_then_assoc:
  "and_then (and_then r f) g = and_then r (\<lambda>x. and_then (f x) g)"
  by (simp add: and_then_def split: option.splits run.splits)

lemma gc_reset_registry:
  assumes "registry w as"
  shows "\<exists>w1. gc_reset_loop w (head (st w)) = Some w1 \<and> w1 = w\<lparr>ents := ents w1\<rparr> \<and>
           registry w1 as \<and>
           (\<forall>a\<in>set as. \<exists>e. ents w a = Some e \<and>
              ents w1 a = Some (e\<lparr>reachable := ((flags (st w) AND GC_SCAN_REGISTERS) \<noteq> 0 \<and>
                                              ptr e \<in> set (regs_words (gp_registers w))),
                                 reach_addr := 0\<rparr>))"
proof -
  have d: "dll (ents w) 0 (head (st w)) as" "distinct as"
    using assms by (simp_all add: registry_def)
  obtain w1 where w1: "gc_reset_loop w (head (st w)) = Some w1" "w1 = w\<lparr>ents := ents w1\<rparr>"
      "\<forall>a. a \<notin> set as \<longrightarrow> ents w1 a = ents w a"
      "\<forall>a\<in>set as. \<exists>e. ents w a = Some e \<and>
              ents w1 a = Some (e\<lparr>reachable := ((flags (st w) AND GC_SCAN_REGISTERS) \<noteq> 0 \<and>
                                              ptr e \<in> set (regs_words (gp_registers w))),
                                 reach_addr := 0\<rparr>)"
    using gc_reset_loop_registry [OF d] by blast
  have "map_option entry_links (ents w1 x) = map_option entry_links (ents w x)" if "x \<in> set as" for x
    using w1(4) that by (auto simp: entry_links_def)
  then have "dll (ents w1) 0 (head (st w)) as = dll (ents w) 0 (head (st w)) as"
    by (intro dll_links) simp
  moreover have "head (st w1) = head (st w)"
    by (subst w1(2)) simp
  ultimately have "registry w1 as"
    using d by (simp add: registry_def)
  then show ?thesis using w1(1,2,4) by blast
qed

text \<open>A cycle on a non-empty well-formed registry: the reset loop, then a mark phase
  that comes to an end, then, unless the mark phase was stopped by a fault, the sweep
  of the world the mark phase left.\<close>

lemma u_gc_collect_phases:
  assumes "registry w as" and "as \<noteq> []"
  shows "\<exists>w1 out5. registry w1 as \<and> seen w1 = seen w \<and> blocks w1 = blocks w \<and>
           (\<forall>a\<in>set as. \<exists>e. ents w a = Some e \<and>
              ents w1 a = Some (e\<lparr>reachable := ((flags (st w) AND GC_SCAN_REGISTERS) \<noteq> 0 \<and>
                                              ptr e \<in> set (regs_words (gp_registers w))),
                                 reach_addr := 0\<rparr>)) \<and>
           mark_rel w1 (final out5) \<and>
           u_gc_collect w heaps =
             and_then (Some out5) (\<lambda>w5. map_option Returns (gc_sweep w5))"
proof -
  let ?w = "w\<lparr>cycles := Suc (cycles w)\<rparr>"
  have r0: "registry ?w as" using assms(1) by (simp add: registry_def)
  obtain w1 where w1: "gc_reset_loop ?w (head (st ?w)) = Some w1" "w1 = ?w\<lparr>ents := ents w1\<rparr>"
      "registry w1 as"
      "\<forall>a\<in>set as. \<exists>e. ents ?w a = Some e \<and>
              ents w1 a = Some (e\<lparr>reachable := ((flags (st ?w) AND GC_SCAN_REGISTERS) \<noteq> 0 \<and>
                                              ptr e \<in> set (regs_words (gp_registers ?w))),
                                 reach_addr := 0\<rparr>)"
    using gc_reset_registry [OF r0] by blast
  have same: "seen w1 = seen w" "blocks w1 = blocks w"
    by (subst w1(2), simp)+
  let ?M = "and_then (if (flags (st w1) AND GC_SCAN_STACK) \<noteq> 0
               then gc_mark w1 (gc_current_stack_top w1) (stack_start (st w1)) False
               else Some (Returns w1))
       (\<lambda>w2.
     and_then (if (flags (st w2) AND GC_SCAN_DATA_SECTION) \<noteq> 0
               then gc_mark w2 (region_start (data (st w2))) (region_end (data (st w2))) False
               else Some (Returns w2))
       (\<lambda>w3.
     and_then (if (flags (st w3) AND GC_SCAN_BSS_SECTION) \<noteq> 0
               then gc_mark w3 (region_start (bss (st w3))) (region_end (bss (st w3))) False
               else Some (Returns w3))
       (\<lambda>w4. if (flags (st w4) AND GC_SCAN_HEAPS) \<noteq> 0
              then gc_mark_heaps w4 heaps
              else Some (Returns w4))))"
  obtain out5 where out5: "?M = Some out5" "mark_rel w1 (final out5)"
    using mark_phase_total [OF w1(3) assms(2), of heaps] unfolding mark_run_def by blast
  have "u_gc_collect w heaps = and_then ?M (\<lambda>w5. map_option Returns (gc_sweep w5))"
    using w1(1) unfolding u_gc_collect_def Let_def by (simp add: and_then_assoc)
  then have run: "u_gc_collect w heaps =
      and_then (Some out5) (\<lambda>w5. map_option Returns (gc_sweep w5))"
    unfolding out5(1) .
  show ?thesis
    using w1(3,4) same out5(2) run by (intro exI [of _ w1] exI [of _ out5]) simp
qed

section \<open>Marks outside a cycle\<close>

text \<open>
  The claim C5 says that outside a cycle every record's mark is false. After a complete
  cycle on \<open>two_records\<close> with A's base on the stack, A is still in the registry and
  its mark is true.
\<close>

theorem marks_outside_cycle_counterexample:
  "record_at 100 (returned (gc_collect (two_records GC_SCAN_STACK) cpu_holding_A [])) =
     Some (Some \<lparr>ptr = 8192, size_e = 8, reachable = True, reach_addr = 28664,
                 next_e = 0, prev_e = 200\<rparr>)"
  unfolding two_records_def cpu_holding_A_def
  by (simp add: run_rules cong: bind_weak_cong and_then_weak_cong)

text \<open>
  Claim C5, amended. \<open>gc_sweep\<close> leaves the marks alone. On a well-formed registry it
  returns, and afterwards: the registry consists of the records that were marked, in
  their old order; every unmarked record is gone from the store; the blocks released
  are exactly the bases of the unmarked records; every other record has its base,
  size, mark and hit address unchanged, so every record that is kept is still marked;
  and nothing outside the records, the blocks and the head has changed. The marks are
  reset by the first loop of a cycle: on a well-formed registry it returns, keeps the
  registry, and leaves a record marked exactly when the registers flag is set and the
  record's base is one of the words of the register snapshot.
\<close>

theorem marks_survive_sweep_until_reset:
  assumes "registry w as"
  shows "(\<exists>w'. gc_sweep w = Some w' \<and> registry w' (filter (marked w) as) \<and>
              (\<forall>a\<in>set as. \<not> marked w a \<longrightarrow> ents w' a = None) \<and>
              (\<forall>b. blocks w' b =
                   (if \<exists>a\<in>set as. \<not> marked w a \<and> base_is w b a then None else blocks w b)) \<and>
              (\<forall>a. \<not> (a \<in> set as \<and> \<not> marked w a) \<longrightarrow>
                   map_option entry_data (ents w' a) = map_option entry_data (ents w a)) \<and>
              list_all (marked w') (filter (marked w) as) \<and>
              same_outside_registry w w') \<and>
         (\<exists>w1. gc_reset_loop w (head (st w)) = Some w1 \<and> registry w1 as \<and>
              (\<forall>a\<in>set as. marked w1 a \<longleftrightarrow>
                   ((flags (st w) AND GC_SCAN_REGISTERS) \<noteq> 0 \<and>
                    (\<exists>p\<in>set (regs_words (gp_registers w)). base_is w p a))))"
proof
  show "\<exists>w'. gc_sweep w = Some w' \<and> registry w' (filter (marked w) as) \<and>
              (\<forall>a\<in>set as. \<not> marked w a \<longrightarrow> ents w' a = None) \<and>
              (\<forall>b. blocks w' b =
                   (if \<exists>a\<in>set as. \<not> marked w a \<and> base_is w b a then None else blocks w b)) \<and>
              (\<forall>a. \<not> (a \<in> set as \<and> \<not> marked w a) \<longrightarrow>
                   map_option entry_data (ents w' a) = map_option entry_data (ents w a)) \<and>
              list_all (marked w') (filter (marked w) as) \<and>
              same_outside_registry w w'"
  proof -
    obtain w' where w': "gc_sweep w = Some w'" "registry w' (filter (marked w) as)"
        "\<forall>a\<in>set as. \<not> marked w a \<longrightarrow> ents w' a = None"
        "\<forall>a. \<not> (a \<in> set as \<and> \<not> marked w a) \<longrightarrow>
              map_option entry_data (ents w' a) = map_option entry_data (ents w a)"
        "\<forall>b. blocks w' b =
              (if \<exists>a\<in>set as. \<not> marked w a \<and> base_is w b a then None else blocks w b)"
        "same_outside_registry w w'"
      using gc_sweep_registry [OF assms] by blast
    have mk: "marked w' a" if "a \<in> set as" "marked w a" for a
    proof -
      have "map_option entry_data (ents w' a) = map_option entry_data (ents w a)"
        using w'(4) that by blast
      then have "selected reachable w' a = selected reachable w a"
        by (intro selected_data) (simp_all add: entry_data_def)
      then show ?thesis using that(2) by (simp add: marked_def)
    qed
    have "\<forall>a\<in>set (filter (marked w) as). marked w' a"
    proof
      fix a assume "a \<in> set (filter (marked w) as)"
      then have "a \<in> set as" "marked w a" by simp_all
      then show "marked w' a" by (rule mk)
    qed
    then have "list_all (marked w') (filter (marked w) as)"
      unfolding list_all_iff .
    with w' show ?thesis
      by (intro exI [of _ w'] conjI)
  qed
next
  obtain w1 where w1: "gc_reset_loop w (head (st w)) = Some w1" "registry w1 as"
      "\<forall>a\<in>set as. \<exists>e. ents w a = Some e \<and>
              ents w1 a = Some (e\<lparr>reachable := ((flags (st w) AND GC_SCAN_REGISTERS) \<noteq> 0 \<and>
                                              ptr e \<in> set (regs_words (gp_registers w))),
                                 reach_addr := 0\<rparr>)"
    using gc_reset_registry [OF assms] by blast
  have iff: "marked w1 a \<longleftrightarrow>
          ((flags (st w) AND GC_SCAN_REGISTERS) \<noteq> 0 \<and>
           (\<exists>p\<in>set (regs_words (gp_registers w)). base_is w p a))" if "a \<in> set as" for a
  proof -
    from w1(3) that
    have "\<exists>e. ents w a = Some e \<and>
              ents w1 a = Some (e\<lparr>reachable := ((flags (st w) AND GC_SCAN_REGISTERS) \<noteq> 0 \<and>
                                              ptr e \<in> set (regs_words (gp_registers w))),
                                 reach_addr := 0\<rparr>)"
      by (rule bspec)
    then obtain e where e: "ents w a = Some e"
        "ents w1 a = Some (e\<lparr>reachable := ((flags (st w) AND GC_SCAN_REGISTERS) \<noteq> 0 \<and>
                                              ptr e \<in> set (regs_words (gp_registers w))),
                                 reach_addr := 0\<rparr>)"
      by (elim exE conjE)
    have b: "base_is w p a \<longleftrightarrow> p = ptr e" for p
      using e(1) by (auto simp: base_is_def selected_def)
    have m: "marked w1 a \<longleftrightarrow> ((flags (st w) AND GC_SCAN_REGISTERS) \<noteq> 0 \<and>
                                              ptr e \<in> set (regs_words (gp_registers w)))"
      unfolding marked_def selected_def e(2) by simp
    have "(\<exists>p\<in>set (regs_words (gp_registers w)). base_is w p a) \<longleftrightarrow>
          ptr e \<in> set (regs_words (gp_registers w))"
      unfolding b by blast
    then show ?thesis unfolding m by (rule arg_cong [where f = "\<lambda>x. _ \<and> x", THEN sym])
  qed
  show "\<exists>w1. gc_reset_loop w (head (st w)) = Some w1 \<and> registry w1 as \<and>
              (\<forall>a\<in>set as. marked w1 a \<longleftrightarrow>
                   ((flags (st w) AND GC_SCAN_REGISTERS) \<noteq> 0 \<and>
                    (\<exists>p\<in>set (regs_words (gp_registers w)). base_is w p a)))"
  proof (intro exI [of _ w1] conjI ballI)
    show "gc_reset_loop w (head (st w)) = Some w1" by (rule w1(1))
    show "registry w1 as" by (rule w1(2))
    fix a assume "a \<in> set as"
    then show "marked w1 a \<longleftrightarrow>
                   ((flags (st w) AND GC_SCAN_REGISTERS) \<noteq> 0 \<and>
                    (\<exists>p\<in>set (regs_words (gp_registers w)). base_is w p a))"
      by (rule iff)
  qed
qed

theorem marks_survive_sweep_until_reset_witness:
  "registry half_marked [200, 100] \<and>
   (\<exists>w'. gc_sweep half_marked = Some w' \<and> registry w' [100] \<and> marked w' 100 \<and>
         ents w' 200 = None \<and> blocks w' 12288 = None \<and> blocks w' 8192 = Some 8)"
proof -
  have r: "registry half_marked [200, 100]"
    by (simp add: registry_def half_marked_def ex_state_def)
  have f: "filter (marked half_marked) [200, 100] = [100]"
    by (simp add: marked_def selected_def half_marked_def)
  have u: "\<not> marked half_marked 200" "marked half_marked 100"
    by (simp_all add: marked_def selected_def half_marked_def)
  have b: "base_is half_marked 12288 200" "\<not> base_is half_marked 8192 200"
    by (simp_all add: base_is_def selected_def half_marked_def)
  obtain w' where w': "gc_sweep half_marked = Some w'"
      "registry w' (filter (marked half_marked) [200, 100])"
      "\<forall>a\<in>set [200, 100]. \<not> marked half_marked a \<longrightarrow> ents w' a = None"
      "\<forall>b. blocks w' b =
           (if \<exists>a\<in>set [200, 100]. \<not> marked half_marked a \<and> base_is half_marked b a then None
            else blocks half_marked b)"
      "list_all (marked w') (filter (marked half_marked) [200, 100])"
    using marks_survive_sweep_until_reset [OF r] by blast
  have 1: "registry w' [100]" "marked w' 100"
    using w'(2,5) unfolding f by simp_all
  have 2: "ents w' 200 = None" using w'(3) u(1) by simp
  have 3: "blocks w' 12288 = None" using w'(4) u(1) b(1) by auto
  have "blocks w' 8192 = blocks half_marked 8192" using w'(4) u b(2) by auto
  then have 4: "blocks w' 8192 = Some 8" by (simp add: half_marked_def)
  from r w'(1) 1 2 3 4 show ?thesis by blast
qed

section \<open>Positions read by a range scan\<close>

text \<open>
  Claim C8 says that every word read lies inside the range passed to the mark engine,
  at a word stride from its start. The loop test \<^verbatim>\<open>start <= end\<close> after
  \<^verbatim>\<open>end -= sizeof(void*)\<close> bounds the cursor, but the self-skip moves the cursor
  inside the loop body and the word at the new position is read before the test is
  made again. The code run on \<open>tagged_heap\<close>: a scan of the sixteen bytes
  \<open>[4096, 4112)\<close> with self-skip matches the tag at 4096, moves the cursor to 4159 and
  reads the word there, 47 bytes past the end of the range and at no word stride from
  4096; the same scan without self-skip reads the words at 4096 and 4104 only. The code
  run on \<open>edge_heap\<close>, where the scanned range \<open>[32704, 32768)\<close> is a registry record
  and ends where readable memory ends: the cursor goes to 32767 and the read there
  stops the run with a fault.
\<close>

theorem scan_reads_past_range_end:
  "reads_of (returned (gc_mark tagged_heap 4096 4112 True)) = Some [(True, 4096, 4112, 4159)] \<and>
   reads_of (returned (gc_mark tagged_heap 4096 4112 False)) =
     Some [(False, 4096, 4112, 4096), (False, 4096, 4112, 4104)] \<and>
   self_skip edge_heap True 32704 = Some 32767 \<and>
   read_word edge_heap 32767 = None \<and>
   faulted (gc_mark edge_heap 32704 32768 True)"
proof -
  have a: "reads_of (returned (gc_mark tagged_heap 4096 4112 True)) =
      Some [(True, 4096, 4112, 4159)]"
    unfolding tagged_heap_def by (simp add: run_rules cong: bind_weak_cong and_then_weak_cong)
  have b: "reads_of (returned (gc_mark tagged_heap 4096 4112 False)) =
     Some [(False, 4096, 4112, 4096), (False, 4096, 4112, 4104)]"
    unfolding tagged_heap_def by (simp add: run_rules cong: bind_weak_cong and_then_weak_cong)
  have c: "self_skip edge_heap True 32704 = Some 32767"
    unfolding edge_heap_def by (simp add: run_rules)
  have d: "read_word edge_heap 32767 = None"
    unfolding edge_heap_def by (simp add: run_rules)
  have e: "faulted (gc_mark edge_heap 32704 32768 True)"
    unfolding edge_heap_def by (simp add: run_rules cong: bind_weak_cong and_then_weak_cong)
  show ?thesis by (intro conjI a b c d e)
qed

section \<open>Reference cycles\<close>

text \<open>
  The claim C6 says that two allocations holding each other's base are released when
  no enabled root range contains either base. In \<open>three_records\<close> the only enabled root
  range is the stack word at 28664, which holds C's base 16384; A and B hold each
  other's base; C's payload holds A's base. After the cycle A and B are both still in
  the registry, marked through C.
\<close>

theorem reachable_through_third_record_counterexample:
  "flags (st three_records) = GC_SCAN_STACK \<and>
   gc_current_stack_top (three_records\<lparr>gp_registers := cpu_idle\<rparr>) = 28664 \<and>
   stack_start (st three_records) = 28672 \<and>
   read_word three_records 28664 = Some 16384 \<and>
   read_word three_records 8192 = Some 12288 \<and> read_word three_records 12288 = Some 8192 \<and>
   record_at 100 (returned (gc_collect three_records cpu_idle [])) =
     Some (Some \<lparr>ptr = 8192, size_e = 8, reachable = True, reach_addr = 16384,
                 next_e = 0, prev_e = 200\<rparr>) \<and>
   record_at 200 (returned (gc_collect three_records cpu_idle [])) =
     Some (Some \<lparr>ptr = 12288, size_e = 8, reachable = True, reach_addr = 8192,
                 next_e = 100, prev_e = 300\<rparr>)"
proof -
  have a: "flags (st three_records) = GC_SCAN_STACK"
      "gc_current_stack_top (three_records\<lparr>gp_registers := cpu_idle\<rparr>) = 28664"
      "stack_start (st three_records) = 28672"
    by (simp_all add: three_records_def ex_state_def gc_current_stack_top_def cpu_idle_def)
  have l1: "read_word three_records 28664 = Some 16384"
    unfolding three_records_def by (simp add: run_rules)
  have l2: "read_word three_records 8192 = Some 12288"
    unfolding three_records_def by (simp add: run_rules)
  have l3: "read_word three_records 12288 = Some 8192"
    unfolding three_records_def by (simp add: run_rules)
  have x: "record_at 100 (returned (gc_collect three_records cpu_idle [])) =
     Some (Some \<lparr>ptr = 8192, size_e = 8, reachable = True, reach_addr = 16384,
                 next_e = 0, prev_e = 200\<rparr>)"
    unfolding three_records_def cpu_idle_def
    by (simp add: run_rules cong: bind_weak_cong and_then_weak_cong)
  have y: "record_at 200 (returned (gc_collect three_records cpu_idle [])) =
     Some (Some \<lparr>ptr = 12288, size_e = 8, reachable = True, reach_addr = 8192,
                 next_e = 100, prev_e = 300\<rparr>)"
    unfolding three_records_def cpu_idle_def
    by (simp add: run_rules cong: bind_weak_cong and_then_weak_cong)
  show ?thesis by (intro conjI a l1 l2 l3 x y)
qed

text \<open>
  Claim C6, amended. Let the registry be well formed and let \<open>a\<close> and \<open>b\<close> be two of its
  records. Then a collection cycle comes to an end, whatever the records and the root
  ranges hold: it returns, or a read of unreadable memory stops it during the mark
  phase; it never runs forever. When it returns, and neither base is in the register
  snapshot (or the registers flag is off), and no word that the mark phase has read, in
  an enabled root range or in the payload of a record it marked, equals either base,
  then both records are out of the registry and gone from the store and both payload
  blocks are released, in this one cycle. Whether the two payloads hold each other's
  base makes no difference.
\<close>

theorem unreachable_pair_reclaimed:
  assumes "registry w as" and "a \<in> set as" and "b \<in> set as"
    and "ents w a = Some ea" and "ents w b = Some eb"
  shows "\<exists>out. gc_collect w cpu heaps = Some out \<and>
           (\<forall>w'. out = Returns w' \<longrightarrow>
              ((flags (st w) AND GC_SCAN_REGISTERS) = 0 \<or>
               (ptr ea \<notin> set (regs_words cpu) \<and> ptr eb \<notin> set (regs_words cpu))) \<and>
              (\<forall>v\<in>set (new_seen w w'). v \<noteq> ptr ea \<and> v \<noteq> ptr eb) \<longrightarrow>
              ents w' a = None \<and> ents w' b = None \<and>
              blocks w' (ptr ea) = None \<and> blocks w' (ptr eb) = None \<and>
              (\<exists>as'. registry w' as' \<and> a \<notin> set as' \<and> b \<notin> set as'))"
proof -
  let ?W = "w\<lparr>gp_registers := cpu\<rparr>"
  have W: "registry ?W as"
    using assms(1) by (simp add: registry_def)
  have ne: "as \<noteq> []" using assms(2) by auto
  obtain w1 out5 where ph: "registry w1 as" "seen w1 = seen ?W"
      "\<forall>x\<in>set as. \<exists>e. ents ?W x = Some e \<and>
              ents w1 x = Some (e\<lparr>reachable := ((flags (st ?W) AND GC_SCAN_REGISTERS) \<noteq> 0 \<and>
                                              ptr e \<in> set (regs_words (gp_registers ?W))),
                                 reach_addr := 0\<rparr>)"
      "mark_rel w1 (final out5)"
      "u_gc_collect ?W heaps = and_then (Some out5) (\<lambda>w5. map_option Returns (gc_sweep w5))"
    using u_gc_collect_phases [OF W ne, of heaps] by blast
  show ?thesis
  proof (cases out5)
    case (Faults w4)
    have "gc_collect w cpu heaps = Some (Faults w4)"
      using ph(5) Faults by (simp add: gc_collect_def and_then_def)
    then show ?thesis by simp
  next
    case (Returns w5)
    have m5: "mark_rel w1 w5" using ph(4) Returns by (simp add: final_def)
    have r5: "registry w5 as" using mark_rel_registry [OF m5] ph(1) by simp
    obtain w' where w': "gc_sweep w5 = Some w'" "registry w' (filter (marked w5) as)"
        "\<forall>x\<in>set as. \<not> marked w5 x \<longrightarrow> ents w' x = None"
        "\<forall>p. blocks w' p =
           (if \<exists>x\<in>set as. \<not> marked w5 x \<and> base_is w5 p x then None else blocks w5 p)"
        "same_outside_registry w5 w'"
      using gc_sweep_registry [OF r5] by blast
    have run: "gc_collect w cpu heaps = Some (Returns w')"
      using ph(5) Returns w'(1) by (simp add: gc_collect_def and_then_def)
    have ns: "new_seen w w' = new_seen w1 w5"
      using ph(2) w'(5) by (simp add: new_seen_def same_outside_registry_def)
    have gone: "ents w' x = None \<and> blocks w' (ptr e) = None \<and> x \<notin> set (filter (marked w5) as)"
      if x: "x \<in> set as" "ents w x = Some e"
        and nreg: "(flags (st w) AND GC_SCAN_REGISTERS) = 0 \<or> ptr e \<notin> set (regs_words cpu)"
        and nhit: "ptr e \<notin> set (new_seen w w')"
      for x e
    proof -
      from ph(3) x(1)
      have "\<exists>e. ents ?W x = Some e \<and>
                ents w1 x = Some (e\<lparr>reachable := ((flags (st ?W) AND GC_SCAN_REGISTERS) \<noteq> 0 \<and>
                                                ptr e \<in> set (regs_words (gp_registers ?W))),
                                   reach_addr := 0\<rparr>)"
        by (rule bspec)
      then obtain e' where e': "ents ?W x = Some e'"
          "ents w1 x = Some (e'\<lparr>reachable := ((flags (st ?W) AND GC_SCAN_REGISTERS) \<noteq> 0 \<and>
                                                ptr e' \<in> set (regs_words (gp_registers ?W))),
                                   reach_addr := 0\<rparr>)"
        by (elim exE conjE)
      have ee: "e' = e" using e'(1) x(2) by simp
      have nR: "((flags (st ?W) AND GC_SCAN_REGISTERS) \<noteq> 0 \<and>
               ptr e \<in> set (regs_words (gp_registers ?W))) = False"
        using nreg by auto
      have e1: "ents w1 x = Some (e\<lparr>reachable := False, reach_addr := 0\<rparr>)"
        using e'(2) unfolding ee nR .
      have nh: "ptr (e\<lparr>reachable := False, reach_addr := 0\<rparr>) \<notin> set (new_seen w1 w5)"
        using nhit ns by simp
      have nr1: "\<not> reachable (e\<lparr>reachable := False, reach_addr := 0\<rparr>)" by simp
      from mark_rel_unmarked [OF m5 e1 nr1 nh]
      obtain e5 where e5: "ents w5 x = Some e5" "ptr e5 = ptr e" "\<not> reachable e5"
        by auto
      have um: "\<not> marked w5 x" and bs: "base_is w5 (ptr e) x"
        using e5 by (simp_all add: marked_def base_is_def selected_def)
      have "\<exists>x\<in>set as. \<not> marked w5 x \<and> base_is w5 (ptr e) x"
        using um bs x(1) by blast
      then have "blocks w' (ptr e) = None"
        using w'(4) by simp
      moreover have "ents w' x = None" using w'(3) um x(1) by blast
      moreover have "x \<notin> set (filter (marked w5) as)" using um by simp
      ultimately show ?thesis by blast
    qed
    have main: "ents w' a = None \<and> ents w' b = None \<and>
              blocks w' (ptr ea) = None \<and> blocks w' (ptr eb) = None \<and>
              (\<exists>as'. registry w' as' \<and> a \<notin> set as' \<and> b \<notin> set as')"
      if H: "((flags (st w) AND GC_SCAN_REGISTERS) = 0 \<or>
               (ptr ea \<notin> set (regs_words cpu) \<and> ptr eb \<notin> set (regs_words cpu))) \<and>
              (\<forall>v\<in>set (new_seen w w'). v \<noteq> ptr ea \<and> v \<noteq> ptr eb)"
    proof -
      have Ha: "(flags (st w) AND GC_SCAN_REGISTERS) = 0 \<or> ptr ea \<notin> set (regs_words cpu)"
        and Hb: "(flags (st w) AND GC_SCAN_REGISTERS) = 0 \<or> ptr eb \<notin> set (regs_words cpu)"
        and Ra: "ptr ea \<notin> set (new_seen w w')"
        and Rb: "ptr eb \<notin> set (new_seen w w')"
        using H by blast+
      have ga: "ents w' a = None \<and> blocks w' (ptr ea) = None \<and> a \<notin> set (filter (marked w5) as)"
        using gone [OF assms(2,4) Ha Ra] .
      have gb: "ents w' b = None \<and> blocks w' (ptr eb) = None \<and> b \<notin> set (filter (marked w5) as)"
        using gone [OF assms(3,5) Hb Rb] .
      have "\<exists>as'. registry w' as' \<and> a \<notin> set as' \<and> b \<notin> set as'"
        using w'(2) ga gb by blast
      then show ?thesis using ga gb by blast
    qed
    show ?thesis
    proof (intro exI [of _ "Returns w'"] conjI allI impI)
      show "gc_collect w cpu heaps = Some (Returns w')" by (rule run)
    next
      fix w''
      assume eq: "Returns w' = Returns w''"
        and H: "((flags (st w) AND GC_SCAN_REGISTERS) = 0 \<or>
               (ptr ea \<notin> set (regs_words cpu) \<and> ptr eb \<notin> set (regs_words cpu))) \<and>
              (\<forall>v\<in>set (new_seen w w''). v \<noteq> ptr ea \<and> v \<noteq> ptr eb)"
      have e: "w'' = w'" using eq by simp
      have m: "ents w' a = None \<and> ents w' b = None \<and>
              blocks w' (ptr ea) = None \<and> blocks w' (ptr eb) = None \<and>
              (\<exists>as'. registry w' as' \<and> a \<notin> set as' \<and> b \<notin> set as')"
        using main H unfolding e by blast
      show "ents w'' a = None" "ents w'' b = None" "blocks w'' (ptr ea) = None"
        "blocks w'' (ptr eb) = None" "\<exists>as'. registry w'' as' \<and> a \<notin> set as' \<and> b \<notin> set as'"
        using m unfolding e by blast+
    qed
  qed
qed

theorem unreachable_pair_reclaimed_witness:
  "registry cycle_world [200, 100] \<and>
   read_word cycle_world 8192 = Some 12288 \<and> read_word cycle_world 12288 = Some 8192 \<and>
   seen_of (returned (gc_collect cycle_world cpu_idle [])) = Some [0, 0] \<and>
   record_at 100 (returned (gc_collect cycle_world cpu_idle [])) = Some None \<and>
   record_at 200 (returned (gc_collect cycle_world cpu_idle [])) = Some None \<and>
   block_at 8192 (returned (gc_collect cycle_world cpu_idle [])) = Some None \<and>
   block_at 12288 (returned (gc_collect cycle_world cpu_idle [])) = Some None"
proof -
  let ?A = "\<lparr>ptr = 8192, size_e = 8, reachable = False, reach_addr = 0, next_e = 0, prev_e = 200\<rparr>"
  let ?B = "\<lparr>ptr = 12288, size_e = 8, reachable = False, reach_addr = 0, next_e = 100, prev_e = 0\<rparr>"
  have r: "registry cycle_world [200, 100]"
    by (simp add: registry_def cycle_world_def ex_state_def)
  have a: "100 \<in> set [200, 100 :: nat]" and b: "200 \<in> set [200, 100 :: nat]"
    by simp_all
  have ea: "ents cycle_world 100 = Some ?A" and eb: "ents cycle_world 200 = Some ?B"
    by (simp_all add: cycle_world_def)
  have la: "read_word cycle_world 8192 = Some 12288"
    unfolding cycle_world_def by (simp add: run_rules)
  have lb: "read_word cycle_world 12288 = Some 8192"
    unfolding cycle_world_def by (simp add: run_rules)
  obtain out where out: "gc_collect cycle_world cpu_idle [] = Some out"
      "\<forall>w'. out = Returns w' \<longrightarrow>
         ((flags (st cycle_world) AND GC_SCAN_REGISTERS) = 0 \<or>
           (ptr ?A \<notin> set (regs_words cpu_idle) \<and> ptr ?B \<notin> set (regs_words cpu_idle))) \<and>
          (\<forall>v\<in>set (new_seen cycle_world w'). v \<noteq> ptr ?A \<and> v \<noteq> ptr ?B) \<longrightarrow>
          ents w' 100 = None \<and> ents w' 200 = None \<and>
          blocks w' (ptr ?A) = None \<and> blocks w' (ptr ?B) = None \<and>
          (\<exists>as'. registry w' as' \<and> 100 \<notin> set as' \<and> 200 \<notin> set as')"
    using unreachable_pair_reclaimed [OF r a b ea eb, of cpu_idle "[]"] by blast
  have sn: "seen_of (returned (gc_collect cycle_world cpu_idle [])) = Some [0, 0]"
    unfolding cycle_world_def cpu_idle_def
    by (simp add: run_rules cong: bind_weak_cong and_then_weak_cong)
  obtain w' where w': "out = Returns w'" "seen w' = [0, 0]"
    using sn out(1) by (cases out) (simp_all add: seen_of_def returned_def)
  have ns: "new_seen cycle_world w' = [0, 0]"
    using w'(2) by (simp add: new_seen_def cycle_world_def)
  have regs: "ptr ?A \<notin> set (regs_words cpu_idle) \<and> ptr ?B \<notin> set (regs_words cpu_idle)"
    by (simp add: regs_words_def cpu_idle_def zero_regs_def)
  have vals: "\<forall>v\<in>set (new_seen cycle_world w'). v \<noteq> ptr ?A \<and> v \<noteq> ptr ?B"
    unfolding ns by simp
  have c: "ents w' 100 = None \<and> ents w' 200 = None \<and>
            blocks w' (ptr ?A) = None \<and> blocks w' (ptr ?B) = None"
    using out(2) w'(1) regs vals by blast
  then have "record_at 100 (returned (gc_collect cycle_world cpu_idle [])) = Some None"
      "record_at 200 (returned (gc_collect cycle_world cpu_idle [])) = Some None"
      "block_at 8192 (returned (gc_collect cycle_world cpu_idle [])) = Some None"
      "block_at 12288 (returned (gc_collect cycle_world cpu_idle [])) = Some None"
    using out(1) w'(1) by (simp_all add: record_at_def block_at_def returned_def)
  with r la lb sn show ?thesis by (intro conjI)
qed

end
